theory Spec2Isabelle
  imports Complex_Main "HOL-Library.Word"
begin

section \<open>Data model\<close>

text \<open>
  The C++ type \<^verbatim>\<open>size_t\<close> is an unsigned machine integer; it is modelled as a 64-bit
  word, so that \<open>+\<close> and \<open>-\<close> wrap around exactly as the unsigned arithmetic of the source.
\<close>

type_synonym size_t = "64 word"

text \<open>
  The exception of the source (\<^verbatim>\<open>std::invalid_argument\<close>) and the ways the source can
  leave its contract: an access behind the stored data (\<open>OutOfBounds\<close>), the use of an
  iterator after an insertion into its container (\<open>InvalidIterator\<close>, section 4.3 of the
  specification), a failed assertion where assertions are compiled in, and a division that
  the arithmetic of the operands does not define, such as an integral division by zero
  (\<open>DivisionUndefined\<close>).
\<close>

datatype error = InvalidArgument | OutOfBounds | InvalidIterator | AssertionFailed | DivisionUndefined

text \<open>
  Modelled from the spec: the backing sparse container (\<^verbatim>\<open>CompressedVector\<close>) is not part
  of the sources at hand. Following section 3 of the specification it holds (index, value)
  pairs sorted ascending by index and has a size; its iterators are positions in the
  sequence of stored entries.
\<close>

record 'a CompressedVector =
  cv_size :: size_t
  cv_elems :: "(size_t \<times> 'a) list"

text \<open>Objects live in a store; a view refers to its vector by address (\<^verbatim>\<open>VT& vector_\<close>).\<close>

type_synonym addr = nat
type_synonym 'a heap = "addr \<Rightarrow> 'a CompressedVector"

text \<open>The members \<^verbatim>\<open>vector_\<close>, \<^verbatim>\<open>start_\<close> and \<^verbatim>\<open>size_\<close> of \<^verbatim>\<open>SparseSubvector\<close>.\<close>

record SparseSubvector =
  sv_vector :: addr
  sv_start :: size_t
  sv_size :: size_t

text \<open>The members \<^verbatim>\<open>pos_\<close> and \<^verbatim>\<open>offset_\<close> of \<^verbatim>\<open>SubvectorIterator\<close>.\<close>

record SubvectorIterator =
  it_pos :: nat
  it_offset :: size_t

section \<open>The backing container\<close>

text \<open>
  Modelled from the spec: the range queries of the backing container. \<open>lowerBound i\<close> is
  the position of the first stored entry whose index is not less than \<open>i\<close>, \<open>upperBound i\<close>
  that of the first entry whose index is greater than \<open>i\<close>, \<open>find i\<close> the position of the
  entry with index \<open>i\<close>; each is the end position when there is no such entry.
\<close>

definition cv_end :: "(size_t \<times> 'a) list \<Rightarrow> nat" where
  "cv_end es = length es"

definition cv_lowerBound :: "size_t \<Rightarrow> (size_t \<times> 'a) list \<Rightarrow> nat" where
  "cv_lowerBound i es = length (takeWhile (\<lambda>e. fst e < i) es)"

definition cv_upperBound :: "size_t \<Rightarrow> (size_t \<times> 'a) list \<Rightarrow> nat" where
  "cv_upperBound i es = length (takeWhile (\<lambda>e. fst e \<le> i) es)"

definition cv_find :: "size_t \<Rightarrow> (size_t \<times> 'a) list \<Rightarrow> nat" where
  "cv_find i es = length (takeWhile (\<lambda>e. fst e \<noteq> i) es)"

text \<open>
  Modelled from the spec: erasing the entries between two positions removes exactly these
  entries and leaves the others in place.
\<close>

definition cv_erase :: "nat \<Rightarrow> nat \<Rightarrow> (size_t \<times> 'a) list \<Rightarrow> (size_t \<times> 'a) list" where
  "cv_erase p q es = take p es @ drop q es"

text \<open>The invariant of the backing container: indices strictly ascending and below the size.\<close>

definition cv_wf :: "'a CompressedVector \<Rightarrow> bool" where
  "cv_wf c \<longleftrightarrow> sorted_wrt (<) (map fst (cv_elems c)) \<and> (\<forall>e \<in> set (cv_elems c). fst e < cv_size c)"

section \<open>The view\<close>

text \<open>
  The constructor (lines 732-741). The sum \<open>start + n\<close> is computed in \<^verbatim>\<open>size_t\<close>.
  The store is returned next to the result: the constructor writes nothing.
\<close>

definition SparseSubvector_ctor ::
  "'a heap \<Rightarrow> addr \<Rightarrow> size_t \<Rightarrow> size_t \<Rightarrow> (error + SparseSubvector) \<times> 'a heap" where
  "SparseSubvector_ctor h vec start n =
     (if n = 0 \<or> start + n > cv_size (h vec) then (Inl InvalidArgument, h)
      else (Inr \<lparr>sv_vector = vec, sv_start = start, sv_size = n\<rparr>, h))"

text \<open>The invariant of a view in section 3 of the specification, over the naturals.\<close>

definition sv_valid :: "'a heap \<Rightarrow> SparseSubvector \<Rightarrow> bool" where
  "sv_valid h sv \<longleftrightarrow>
     sv_size sv \<noteq> 0 \<and> unat (sv_start sv) + unat (sv_size sv) \<le> unat (cv_size (h (sv_vector sv)))"

text \<open>\<^verbatim>\<open>size()\<close>, \<^verbatim>\<open>capacity()\<close> (lines 1127-1146) and \<^verbatim>\<open>reserve()\<close> (lines 1263-1268).\<close>

definition size_sv :: "'a heap \<Rightarrow> SparseSubvector \<Rightarrow> size_t" where
  "size_sv h sv = sv_size sv"

definition capacity :: "'a heap \<Rightarrow> SparseSubvector \<Rightarrow> size_t" where
  "capacity h sv = sv_size sv"

definition reserve :: "'a heap \<Rightarrow> SparseSubvector \<Rightarrow> size_t \<Rightarrow> 'a heap" where
  "reserve h sv n = h"

text \<open>\<^verbatim>\<open>begin()\<close> and \<^verbatim>\<open>end()\<close> (lines 794-847).\<close>

definition sv_begin :: "'a heap \<Rightarrow> SparseSubvector \<Rightarrow> SubvectorIterator" where
  "sv_begin h sv =
     \<lparr>it_pos = cv_lowerBound (sv_start sv) (cv_elems (h (sv_vector sv))), it_offset = sv_start sv\<rparr>"

definition sv_end :: "'a heap \<Rightarrow> SparseSubvector \<Rightarrow> SubvectorIterator" where
  "sv_end h sv =
     \<lparr>it_pos = cv_lowerBound (sv_start sv + sv_size sv) (cv_elems (h (sv_vector sv))),
      it_offset = sv_start sv\<rparr>"

text \<open>
  The iterator (lines 457-589): equality compares the positions only, the increment moves the
  position, and the element proxy (lines 333-449) reports the index less the offset.
\<close>

definition it_eq :: "SubvectorIterator \<Rightarrow> SubvectorIterator \<Rightarrow> bool" where
  "it_eq a b \<longleftrightarrow> it_pos a = it_pos b"

definition it_incr :: "SubvectorIterator \<Rightarrow> SubvectorIterator" where
  "it_incr it = it\<lparr>it_pos := it_pos it + 1\<rparr>"

definition elem_index :: "(size_t \<times> 'a) list \<Rightarrow> SubvectorIterator \<Rightarrow> size_t" where
  "elem_index es it = fst (es ! it_pos it) - it_offset it"

definition elem_value :: "(size_t \<times> 'a) list \<Rightarrow> SubvectorIterator \<Rightarrow> 'a" where
  "elem_value es it = snd (es ! it_pos it)"

text \<open>
  The traversal of the class documentation (lines 161-166):
  \<^verbatim>\<open>for( it=sv.begin(); it!=sv.end(); ++it ) { it->index(); it->value(); }\<close>.
  It collects what each element reports. An iterator that is not the end and points behind
  the stored entries cannot be dereferenced: the traversal fails there.
\<close>

function traverse ::
  "'a heap \<Rightarrow> SparseSubvector \<Rightarrow> SubvectorIterator \<Rightarrow> error + (size_t \<times> 'a) list" where
  "traverse h sv it =
     (let es = cv_elems (h (sv_vector sv)) in
      if it_eq it (sv_end h sv) then Inr []
      else if it_pos it < length es then
        (case traverse h sv (it_incr it) of
           Inl e \<Rightarrow> Inl e
         | Inr r \<Rightarrow> Inr ((elem_index es it, elem_value es it) # r))
      else Inl OutOfBounds)"
  by pat_completeness auto
termination
  by (relation "measure (\<lambda>(h, sv, it). length (cv_elems (h (sv_vector sv))) - it_pos it)")
     (auto simp: it_incr_def)

declare traverse.simps [simp del]

type_synonym 'a outcome = "(error \<times> 'a heap) + 'a heap"

text \<open>\<^verbatim>\<open>reset()\<close> (lines 1171-1176).\<close>

definition reset :: "'a heap \<Rightarrow> SparseSubvector \<Rightarrow> 'a heap" where
  "reset h sv =
     (let c = h (sv_vector sv); es = cv_elems c in
      h(sv_vector sv := c\<lparr>cv_elems :=
          cv_erase (cv_lowerBound (sv_start sv) es) (cv_lowerBound (sv_start sv + sv_size sv) es) es\<rparr>))"

text \<open>
  The loop shared by the scalar operators (lines 1067-1068, 1101-1102, 1105-1106):
  \<^verbatim>\<open>for( Iterator element=begin(); element!=end(); ++element ) element->value() op= x;\<close>
  with the update of one value as the function \<open>f\<close>.
\<close>

function scale_elements ::
  "'a heap \<Rightarrow> SparseSubvector \<Rightarrow> SubvectorIterator \<Rightarrow> ('a \<Rightarrow> 'a) \<Rightarrow> 'a outcome" where
  "scale_elements h sv element f =
     (let c = h (sv_vector sv); es = cv_elems c in
      if it_eq element (sv_end h sv) then Inr h
      else if it_pos element < length es then
        scale_elements
          (h(sv_vector sv := c\<lparr>cv_elems :=
               es[it_pos element := (fst (es ! it_pos element), f (snd (es ! it_pos element)))]\<rparr>))
          sv (it_incr element) f
      else Inl (OutOfBounds, h))"
  by pat_completeness auto
termination
  by (relation "measure (\<lambda>(h, sv, it, f). length (cv_elems (h (sv_vector sv))) - it_pos it)")
     (auto simp: it_incr_def)

declare scale_elements.simps [simp del]

text \<open>
  \<^verbatim>\<open>operator*=( Other rhs )\<close> (lines 1061-1070). The compound operator \<^verbatim>\<open>*=\<close> of the
  element type \<open>'a\<close> with the scalar type \<open>'s\<close> is the parameter \<open>mul\<close>.
\<close>

definition mult_assign_scalar ::
  "('a \<Rightarrow> 's \<Rightarrow> 'a) \<Rightarrow> 'a heap \<Rightarrow> SparseSubvector \<Rightarrow> 's \<Rightarrow> 'a outcome" where
  "mult_assign_scalar mul h sv rhs = scale_elements h sv (sv_begin h sv) (\<lambda>v. mul v rhs)"

text \<open>
  The loop of the integral branch of the division (lines 1105-1106):
  \<^verbatim>\<open>for( Iterator element=begin(); element!=end(); ++element ) element->value() /= rhs;\<close>.
  The division of one value may be undefined (\<open>None\<close>): the loop then stops at the first
  stored entry of the view, with what it has written so far. A view without stored entries
  divides nothing.
\<close>

function divide_elements ::
  "'a heap \<Rightarrow> SparseSubvector \<Rightarrow> SubvectorIterator \<Rightarrow> ('a \<Rightarrow> 'a option) \<Rightarrow> 'a outcome" where
  "divide_elements h sv element f =
     (let c = h (sv_vector sv); es = cv_elems c in
      if it_eq element (sv_end h sv) then Inr h
      else if it_pos element < length es then
        (case f (snd (es ! it_pos element)) of
           None \<Rightarrow> Inl (DivisionUndefined, h)
         | Some w \<Rightarrow>
             divide_elements
               (h(sv_vector sv := c\<lparr>cv_elems := es[it_pos element := (fst (es ! it_pos element), w)]\<rparr>))
               sv (it_incr element) f)
      else Inl (OutOfBounds, h))"
  by pat_completeness auto
termination
  by (relation "measure (\<lambda>(h, sv, it, f). length (cv_elems (h (sv_vector sv))) - it_pos it)")
     (auto simp: it_incr_def)

declare divide_elements.simps [simp del]

text \<open>
  \<^verbatim>\<open>operator/=( Other rhs )\<close> (lines 1086-1110). The arithmetic of the element type
  \<open>'a\<close>, the scalar type \<open>'s\<close> and the type \<^verbatim>\<open>Tmp\<close> (\<open>'t\<close>) is not defined in this
  file of the source and is taken as a parameter: whether \<^verbatim>\<open>DivTrait<ElementType,Other>::Type\<close>
  is a floating point type, the reciprocal \<^verbatim>\<open>Tmp(1)/static_cast<Tmp>( rhs )\<close>, and the
  compound operators \<^verbatim>\<open>*=\<close> and \<^verbatim>\<open>/=\<close> on one value. Both divisions are partial:
  \<open>None\<close> where the arithmetic does not define the result (C++ leaves a division by zero
  undefined; an IEEE floating point type defines the reciprocal of zero, an integral type
  does not define the quotient). \<open>user_assert\<close> says whether \<^verbatim>\<open>BLAZE_USER_ASSERT\<close> is
  compiled in (a debug build).
\<close>

record ('a, 's, 't) arith =
  is_floating :: bool
  is_zero :: "'s \<Rightarrow> bool"
  reciprocal :: "'s \<Rightarrow> 't option"
  mul_value :: "'a \<Rightarrow> 't \<Rightarrow> 'a"
  div_value :: "'a \<Rightarrow> 's \<Rightarrow> 'a option"

definition div_assign_scalar ::
  "bool \<Rightarrow> ('a, 's, 't) arith \<Rightarrow> 'a heap \<Rightarrow> SparseSubvector \<Rightarrow> 's \<Rightarrow> 'a outcome" where
  "div_assign_scalar user_assert ar h sv rhs =
     (if user_assert \<and> is_zero ar rhs then Inl (AssertionFailed, h)
      else if is_floating ar then
        (case reciprocal ar rhs of
           None \<Rightarrow> Inl (DivisionUndefined, h)
         | Some tmp \<Rightarrow> scale_elements h sv (sv_begin h sv) (\<lambda>v. mul_value ar v tmp))
      else divide_elements h sv (sv_begin h sv) (\<lambda>v. div_value ar v rhs))"

text \<open>
  The arithmetic of C++ \<^verbatim>\<open>int\<close> elements with an \<^verbatim>\<open>int\<close> scalar, for values that
  do not overflow: the division truncates towards zero and is undefined for the divisor 0.
\<close>

definition trunc_div :: "int \<Rightarrow> int \<Rightarrow> int" where
  "trunc_div a b = (if (a < 0) = (b < 0) then \<bar>a\<bar> div \<bar>b\<bar> else - (\<bar>a\<bar> div \<bar>b\<bar>))"

definition int_arith :: "(int, int, int) arith" where
  "int_arith =
     \<lparr>is_floating = False, is_zero = (\<lambda>s. s = 0),
      reciprocal = (\<lambda>s. if s = 0 then None else Some (trunc_div 1 s)),
      mul_value = (\<lambda>v t. v * t),
      div_value = (\<lambda>v s. if s = 0 then None else Some (trunc_div v s))\<rparr>"

text \<open>
  An arithmetic with exact fractions in the place of a floating point type: it takes the
  branch of the reciprocal. Rounding is not modelled, and the fractions have no infinity:
  the reciprocal of zero is undefined.
\<close>

definition rat_arith :: "(rat, rat, rat) arith" where
  "rat_arith =
     \<lparr>is_floating = True, is_zero = (\<lambda>s. s = 0),
      reciprocal = (\<lambda>s. if s = 0 then None else Some (1 / s)),
      mul_value = (\<lambda>v t. v * t),
      div_value = (\<lambda>v s. if s = 0 then None else Some (v / s))\<rparr>"

text \<open>\<^verbatim>\<open>find\<close>, \<^verbatim>\<open>lowerBound\<close> and \<^verbatim>\<open>upperBound\<close> (lines 1311-1411).\<close>

definition find_sv :: "'a heap \<Rightarrow> SparseSubvector \<Rightarrow> size_t \<Rightarrow> SubvectorIterator" where
  "find_sv h sv index =
     (let es = cv_elems (h (sv_vector sv)); pos = cv_find (sv_start sv + index) es in
      if pos \<noteq> cv_end es then \<lparr>it_pos = pos, it_offset = sv_start sv\<rparr> else sv_end h sv)"

definition lowerBound_sv :: "'a heap \<Rightarrow> SparseSubvector \<Rightarrow> size_t \<Rightarrow> SubvectorIterator" where
  "lowerBound_sv h sv index =
     \<lparr>it_pos = cv_lowerBound (sv_start sv + index) (cv_elems (h (sv_vector sv))),
      it_offset = sv_start sv\<rparr>"

definition upperBound_sv :: "'a heap \<Rightarrow> SparseSubvector \<Rightarrow> size_t \<Rightarrow> SubvectorIterator" where
  "upperBound_sv h sv index =
     \<lparr>it_pos = cv_upperBound (sv_start sv + index) (cv_elems (h (sv_vector sv))),
      it_offset = sv_start sv\<rparr>"

text \<open>The global index an iterator of the backing container points to, if it points to an entry.\<close>

definition index_at :: "(size_t \<times> 'a) list \<Rightarrow> nat \<Rightarrow> size_t option" where
  "index_at es p = (if p < length es then Some (fst (es ! p)) else None)"

section \<open>Assignment\<close>

text \<open>
  Modelled from the spec: inserting into the backing container fails with the
  duplicate-element error (\<^verbatim>\<open>std::invalid_argument\<close>) if an entry exists at that global
  index, and otherwise puts the entry at its place in the order of the indices. Reading an
  index through the constant subscript gives the stored value, or the default value 0 where
  nothing is stored. \<^verbatim>\<open>isDefault\<close> tests for the value 0.
\<close>

definition cv_insert :: "size_t \<Rightarrow> 'a \<Rightarrow> (size_t \<times> 'a) list \<Rightarrow> error + (size_t \<times> 'a) list" where
  "cv_insert i v es =
     (if i \<in> fst ` set es then Inl InvalidArgument
      else Inr (take (cv_lowerBound i es) es @ (i, v) # drop (cv_lowerBound i es) es))"

definition cv_at :: "'a::zero CompressedVector \<Rightarrow> size_t \<Rightarrow> 'a" where
  "cv_at c g = (case map_of (cv_elems c) g of Some v \<Rightarrow> v | None \<Rightarrow> 0)"

definition isDefault :: "'a::zero \<Rightarrow> bool" where
  "isDefault v \<longleftrightarrow> v = 0"

text \<open>The constant subscript operator of the view (lines 776-783).\<close>

definition subscript :: "'a::zero heap \<Rightarrow> SparseSubvector \<Rightarrow> size_t \<Rightarrow> 'a" where
  "subscript h sv index = cv_at (h (sv_vector sv)) (sv_start sv + index)"

text \<open>\<^verbatim>\<open>append()\<close> (lines 1468-1474): it inserts into the backing container.\<close>

definition append_sv :: "'a::zero heap \<Rightarrow> SparseSubvector \<Rightarrow> size_t \<Rightarrow> 'a \<Rightarrow> bool \<Rightarrow> 'a outcome" where
  "append_sv h sv index val check =
     (if \<not> check \<or> \<not> isDefault val then
        (case cv_insert (sv_start sv + index) val (cv_elems (h (sv_vector sv))) of
           Inl e \<Rightarrow> Inl (e, h)
         | Inr es \<Rightarrow> Inr (h(sv_vector sv := (h (sv_vector sv))\<lparr>cv_elems := es\<rparr>)))
      else Inr h)"

text \<open>
  The vectors on the right-hand side of an assignment: a dense vector (its values), a
  sparse vector that is a local temporary, a sparse vector of the store, and a view.
  Modelled from the spec: dense vectors and temporaries are objects of their own, so they
  alias no vector of the store; a sparse vector of the store aliases its own address
  (section 4.5: the alias test compares addresses).
\<close>

datatype 'a rhs_vector =
    Dense "'a list"
  | Temp "'a CompressedVector"
  | Compressed addr
  | Subvector SparseSubvector

fun vec_size :: "'a heap \<Rightarrow> 'a rhs_vector \<Rightarrow> size_t" where
  "vec_size h (Dense xs) = of_nat (length xs)"
| "vec_size h (Temp c) = cv_size c"
| "vec_size h (Compressed a) = cv_size (h a)"
| "vec_size h (Subvector w) = size_sv h w"

text \<open>\<^verbatim>\<open>canAlias\<close> of a view (lines 1499-1502), and of the vectors on the right-hand side.\<close>

definition canAlias_sv :: "SparseSubvector \<Rightarrow> addr \<Rightarrow> bool" where
  "canAlias_sv sv alias \<longleftrightarrow> sv_vector sv = alias"

fun canAlias :: "'a rhs_vector \<Rightarrow> addr \<Rightarrow> bool" where
  "canAlias (Dense xs) alias = False"
| "canAlias (Temp c) alias = False"
| "canAlias (Compressed a) alias = (a = alias)"
| "canAlias (Subvector w) alias = canAlias_sv w alias"

text \<open>
  \<^verbatim>\<open>assign( const DenseVector& )\<close> (lines 1537-1547): the loop
  \<^verbatim>\<open>for( size_t i=0UL; i<size(); ++i ) append( i, (~rhs)[i], true );\<close>.
\<close>

function assign_dense :: "'a::zero heap \<Rightarrow> SparseSubvector \<Rightarrow> 'a list \<Rightarrow> size_t \<Rightarrow> 'a outcome" where
  "assign_dense h sv rhs i =
     (if i < size_sv h sv then
        (if unat i < length rhs then
           (case append_sv h sv i (rhs ! unat i) True of
              Inl e \<Rightarrow> Inl e
            | Inr h' \<Rightarrow> assign_dense h' sv rhs (i + 1))
         else Inl (OutOfBounds, h))
      else Inr h)"
  by pat_completeness auto
termination
proof (relation "measure (\<lambda>(h, sv, rhs, i). unat (sv_size sv) - unat i)", goal_cases)
  case 1
  show ?case by simp
next
  case (2 h sv rhs i h')
  then have lt: "unat i < unat (sv_size sv)" by (simp add: size_sv_def word_less_nat_alt)
  have "unat (sv_size sv) < 2 ^ LENGTH(64)" by (rule unsigned_less)
  with lt have "unat i + unat (1::size_t) < 2 ^ LENGTH(64)" by simp
  then have "unat (i + 1) = unat i + unat (1::size_t)" by (rule unat_add_lem [THEN iffD1])
  with lt show ?case by simp
qed

declare assign_dense.simps [simp del]

text \<open>
  \<^verbatim>\<open>assign( const SparseVector& )\<close> (lines 1562-1572): the loop
  \<^verbatim>\<open>for( element=(~rhs).begin(); element!=(~rhs).end(); ++element )
  append( element->index(), element->value() );\<close>, once for each kind of sparse vector on
  the right-hand side. A temporary is a value, its entries are traversed as a list. A vector
  of the store and a view are read from the store in every round; where the right-hand side
  lives in the vector that \<open>append\<close> inserts into, the iterator is invalid after the
  insertion (section 4.3 of the specification) and the loop cannot go on.
\<close>

fun assign_temp :: "'a::zero heap \<Rightarrow> SparseSubvector \<Rightarrow> (size_t \<times> 'a) list \<Rightarrow> 'a outcome" where
  "assign_temp h sv [] = Inr h"
| "assign_temp h sv (e # es) =
     (case append_sv h sv (fst e) (snd e) False of
        Inl err \<Rightarrow> Inl err
      | Inr h' \<Rightarrow> assign_temp h' sv es)"

function assign_compressed :: "'a::zero heap \<Rightarrow> SparseSubvector \<Rightarrow> addr \<Rightarrow> nat \<Rightarrow> 'a outcome" where
  "assign_compressed h sv a pos =
     (let es = cv_elems (h a) in
      if pos = cv_end es then Inr h
      else if pos < length es then
        (case append_sv h sv (fst (es ! pos)) (snd (es ! pos)) False of
           Inl e \<Rightarrow> Inl e
         | Inr h' \<Rightarrow>
             if a = sv_vector sv then Inl (InvalidIterator, h')
             else assign_compressed h' sv a (pos + 1))
      else Inl (OutOfBounds, h))"
  by pat_completeness auto
termination
  by (relation "measure (\<lambda>(h, sv, a, pos). length (cv_elems (h a)) - pos)")
     (auto simp: append_sv_def split: sum.splits if_splits)

declare assign_compressed.simps [simp del]

function assign_subvector ::
  "'a::zero heap \<Rightarrow> SparseSubvector \<Rightarrow> SparseSubvector \<Rightarrow> SubvectorIterator \<Rightarrow> 'a outcome" where
  "assign_subvector h sv w element =
     (let es = cv_elems (h (sv_vector w)) in
      if it_eq element (sv_end h w) then Inr h
      else if it_pos element < length es then
        (case append_sv h sv (elem_index es element) (elem_value es element) False of
           Inl e \<Rightarrow> Inl e
         | Inr h' \<Rightarrow>
             if sv_vector w = sv_vector sv then Inl (InvalidIterator, h')
             else assign_subvector h' sv w (it_incr element))
      else Inl (OutOfBounds, h))"
  by pat_completeness auto
termination
  by (relation "measure (\<lambda>(h, sv, w, it). length (cv_elems (h (sv_vector w))) - it_pos it)")
     (auto simp: append_sv_def it_incr_def split: sum.splits if_splits)

declare assign_subvector.simps [simp del]

text \<open>The free function \<^verbatim>\<open>assign( lhs, rhs )\<close> selects the member for the kind of \<open>rhs\<close>.\<close>

fun assign :: "'a::zero heap \<Rightarrow> SparseSubvector \<Rightarrow> 'a rhs_vector \<Rightarrow> 'a outcome" where
  "assign h sv (Dense xs) = assign_dense h sv xs 0"
| "assign h sv (Temp c) = assign_temp h sv (cv_elems c)"
| "assign h sv (Compressed a) = assign_compressed h sv a 0"
| "assign h sv (Subvector w) = assign_subvector h sv w (sv_begin h w)"

text \<open>
  Modelled from the spec: the temporary \<^verbatim>\<open>const ResultType tmp( rhs )\<close> holds what the
  right-hand side holds at that moment: the entries of a sparse vector, or the entries of a
  view with their local indices; the result type of a dense vector is a dense vector.
\<close>

fun materialize :: "'a heap \<Rightarrow> 'a rhs_vector \<Rightarrow> error + 'a rhs_vector" where
  "materialize h (Dense xs) = Inr (Dense xs)"
| "materialize h (Temp c) = Inr (Temp c)"
| "materialize h (Compressed a) = Inr (Temp (h a))"
| "materialize h (Subvector w) =
     (case traverse h w (sv_begin h w) of
        Inl e \<Rightarrow> Inl e
      | Inr es \<Rightarrow> Inr (Temp \<lparr>cv_size = size_sv h w, cv_elems = es\<rparr>))"

text \<open>The assignment operator for vectors (lines 938-959).\<close>

definition assign_op :: "'a::zero heap \<Rightarrow> SparseSubvector \<Rightarrow> 'a rhs_vector \<Rightarrow> 'a outcome" where
  "assign_op h sv rhs =
     (if size_sv h sv \<noteq> vec_size h rhs then Inl (InvalidArgument, h)
      else if canAlias rhs (sv_vector sv) then
        (case materialize h rhs of
           Inl e \<Rightarrow> Inl (e, h)
         | Inr tmp \<Rightarrow> assign (reset h sv) sv tmp)
      else assign (reset h sv) sv rhs)"

text \<open>
  The copy assignment operator (lines 901-924), chosen when the right-hand side is a view of
  the same type. Views are values here: \<^verbatim>\<open>this == &rhs\<close> implies the second test of
  line 907, which compares the vectors and the first indices.
\<close>

definition copy_assign_op :: "'a::zero heap \<Rightarrow> SparseSubvector \<Rightarrow> SparseSubvector \<Rightarrow> 'a outcome" where
  "copy_assign_op h sv rhs =
     (if sv_vector sv = sv_vector rhs \<and> sv_start sv = sv_start rhs then Inr h
      else if size_sv h sv \<noteq> size_sv h rhs then Inl (InvalidArgument, h)
      else if canAlias_sv rhs (sv_vector sv) then
        (case materialize h (Subvector rhs) of
           Inl e \<Rightarrow> Inl (e, h)
         | Inr tmp \<Rightarrow> assign (reset h sv) sv tmp)
      else assign (reset h sv) sv (Subvector rhs))"

text \<open>
  The compound assignment operators for vectors (lines 973-1046 and 1587-1696): after the
  test of the sizes, the result of the expression is computed into a temporary, the view is
  reset and the temporary assigned. The evaluation of the expression \<^verbatim>\<open>*this + (~rhs)\<close>
  (and \<open>-\<close>, \<open>*\<close>) into the temporary is not part of the sources at hand and is a parameter.
\<close>

definition add_assign_op ::
  "('a heap \<Rightarrow> SparseSubvector \<Rightarrow> 'a rhs_vector \<Rightarrow> 'a rhs_vector) \<Rightarrow>
   'a::zero heap \<Rightarrow> SparseSubvector \<Rightarrow> 'a rhs_vector \<Rightarrow> 'a outcome" where
  "add_assign_op plus_expr h sv rhs =
     (if vec_size h rhs \<noteq> size_sv h sv then Inl (InvalidArgument, h)
      else (let tmp = plus_expr h sv rhs in assign (reset h sv) sv tmp))"

definition sub_assign_op ::
  "('a heap \<Rightarrow> SparseSubvector \<Rightarrow> 'a rhs_vector \<Rightarrow> 'a rhs_vector) \<Rightarrow>
   'a::zero heap \<Rightarrow> SparseSubvector \<Rightarrow> 'a rhs_vector \<Rightarrow> 'a outcome" where
  "sub_assign_op minus_expr h sv rhs =
     (if vec_size h rhs \<noteq> size_sv h sv then Inl (InvalidArgument, h)
      else (let tmp = minus_expr h sv rhs in assign (reset h sv) sv tmp))"

definition mult_assign_op ::
  "('a heap \<Rightarrow> SparseSubvector \<Rightarrow> 'a rhs_vector \<Rightarrow> 'a rhs_vector) \<Rightarrow>
   'a::zero heap \<Rightarrow> SparseSubvector \<Rightarrow> 'a rhs_vector \<Rightarrow> 'a outcome" where
  "mult_assign_op mult_expr h sv rhs =
     (if vec_size h rhs \<noteq> size_sv h sv then Inl (InvalidArgument, h)
      else (let tmp = mult_expr h sv rhs in assign (reset h sv) sv tmp))"

text \<open>
  What a vector on the right-hand side holds at a local index, and when it is well formed:
  a dense vector has fewer than \<open>2 ^ 64\<close> values, a sparse vector keeps the invariant of
  the container, a view keeps the invariant of a view over such a container.
\<close>

fun vec_at :: "'a::zero heap \<Rightarrow> 'a rhs_vector \<Rightarrow> size_t \<Rightarrow> 'a" where
  "vec_at h (Dense xs) i = xs ! unat i"
| "vec_at h (Temp c) i = cv_at c i"
| "vec_at h (Compressed a) i = cv_at (h a) i"
| "vec_at h (Subvector w) i = subscript h w i"

fun vec_wf :: "'a heap \<Rightarrow> 'a rhs_vector \<Rightarrow> bool" where
  "vec_wf h (Dense xs) \<longleftrightarrow> length xs < 2 ^ 64"
| "vec_wf h (Temp c) \<longleftrightarrow> cv_wf c"
| "vec_wf h (Compressed a) \<longleftrightarrow> cv_wf (h a)"
| "vec_wf h (Subvector w) \<longleftrightarrow> sv_valid h w \<and> cv_wf (h (sv_vector w))"

text \<open>
  The window of a view as the specification words it: the global indices \<open>g\<close> with
  \<open>start \<le> g < start + length\<close>, over the naturals, and the stored entries in the window
  with their local indices \<open>g - start\<close>.
\<close>

definition in_view :: "SparseSubvector \<Rightarrow> size_t \<Rightarrow> bool" where
  "in_view sv g \<longleftrightarrow> unat (sv_start sv) \<le> unat g \<and> unat g < unat (sv_start sv) + unat (sv_size sv)"

definition view_entries :: "'a heap \<Rightarrow> SparseSubvector \<Rightarrow> (size_t \<times> 'a) list" where
  "view_entries h sv =
     map (\<lambda>(g, v). (g - sv_start sv, v))
       (filter (\<lambda>(g, v). in_view sv g) (cv_elems (h (sv_vector sv))))"

text \<open>
  What the specification says of the scalar operators: the values of the stored entries in
  the window are updated by \<open>f\<close>, every other entry and every index stays.
\<close>

definition scaled :: "SparseSubvector \<Rightarrow> ('a \<Rightarrow> 'a) \<Rightarrow> (size_t \<times> 'a) list \<Rightarrow> (size_t \<times> 'a) list" where
  "scaled sv f es = map (\<lambda>(g, v). (g, if in_view sv g then f v else v)) es"

text \<open>
  The division by \<open>s\<close> is defined on a view when the branch that the arithmetic takes
  computes a value for everything it divides: the reciprocal of \<open>s\<close> in the floating point
  branch, the quotient of every stored value of the window in the other. Then
  \<open>view /= s\<close> leaves \<open>scalar_div_value\<close> in the place of a stored value \<open>v\<close>.
\<close>

definition division_defined ::
  "('a, 's, 't) arith \<Rightarrow> SparseSubvector \<Rightarrow> (size_t \<times> 'a) list \<Rightarrow> 's \<Rightarrow> bool" where
  "division_defined ar sv es s \<longleftrightarrow>
     (if is_floating ar then reciprocal ar s \<noteq> None
      else (\<forall>e \<in> set es. in_view sv (fst e) \<longrightarrow> div_value ar (snd e) s \<noteq> None))"

definition scalar_div_value :: "('a, 's, 't) arith \<Rightarrow> 's \<Rightarrow> 'a \<Rightarrow> 'a" where
  "scalar_div_value ar s v =
     (if is_floating ar then (case reciprocal ar s of Some t \<Rightarrow> mul_value ar v t | None \<Rightarrow> v)
      else (case div_value ar v s of Some w \<Rightarrow> w | None \<Rightarrow> v))"

text \<open>
  A position of the backing container lands outside a view when it is the end of the
  container or points to an entry whose global index is not in the window.
\<close>

definition outside_view :: "(size_t \<times> 'a) list \<Rightarrow> SparseSubvector \<Rightarrow> nat \<Rightarrow> bool" where
  "outside_view es sv p \<longleftrightarrow>
     p = cv_end es \<or> (case index_at es p of Some g \<Rightarrow> \<not> in_view sv g | None \<Rightarrow> False)"

text \<open>
  The entries a vector on the right-hand side holds, with their local indices: for a dense
  vector the values that are not the default, for a view the entries in its window.
\<close>

definition dense_entries :: "'a::zero list \<Rightarrow> nat \<Rightarrow> (size_t \<times> 'a) list" where
  "dense_entries xs k = map (\<lambda>j. (of_nat j, xs ! j)) (filter (\<lambda>j. xs ! j \<noteq> 0) [k..<length xs])"

fun entries_of :: "'a::zero heap \<Rightarrow> 'a rhs_vector \<Rightarrow> (size_t \<times> 'a) list" where
  "entries_of h (Dense xs) = dense_entries xs 0"
| "entries_of h (Temp c) = cv_elems c"
| "entries_of h (Compressed a) = cv_elems (h a)"
| "entries_of h (Subvector w) = view_entries h w"

text \<open>The map that results from inserting the entries \<open>xs\<close> with their indices shifted by \<open>s\<close>.\<close>

definition overlay :: "size_t \<Rightarrow> (size_t \<times> 'a) list \<Rightarrow> (size_t \<rightharpoonup> 'a) \<Rightarrow> (size_t \<rightharpoonup> 'a)" where
  "overlay s xs m = (\<lambda>g. case map_of xs (g - s) of Some v \<Rightarrow> Some v | None \<Rightarrow> m g)"

section \<open>Subvectors of expressions\<close>

text \<open>
  Modelled from the spec: the expression templates (the nodes that \<open>+\<close>, \<open>-\<close>, \<open>*\<close>,
  \<open>/\<close>, \<open>abs\<close>, \<open>eval\<close> and \<open>trans\<close> build, their operands and their evaluation) are not
  part of the sources at hand. An expression is a tree over concrete sparse vectors and
  views; its value at an index is computed elementwise; evaluating it eagerly stores the
  values that are not the default in a new sparse vector. The arithmetic is that of the
  element type.
\<close>

datatype 'a expr =
    Vec "'a CompressedVector"
  | View "'a expr" size_t size_t
  | AddExpr "'a expr" "'a expr"
  | SubExpr "'a expr" "'a expr"
  | MultExpr "'a expr" "'a expr"
  | ScalarMultExpr "'a expr" 'a
  | ScalarDivExpr "'a expr" 'a
  | AbsExpr "'a expr"
  | EvalExpr "'a expr"
  | TransExpr "'a expr"

fun expr_size :: "'a expr \<Rightarrow> size_t" where
  "expr_size (Vec c) = cv_size c"
| "expr_size (View e s n) = n"
| "expr_size (AddExpr l r) = expr_size l"
| "expr_size (SubExpr l r) = expr_size l"
| "expr_size (MultExpr l r) = expr_size l"
| "expr_size (ScalarMultExpr e x) = expr_size e"
| "expr_size (ScalarDivExpr e x) = expr_size e"
| "expr_size (AbsExpr e) = expr_size e"
| "expr_size (EvalExpr e) = expr_size e"
| "expr_size (TransExpr e) = expr_size e"

fun expr_at :: "'a::{zero,plus,minus,times,divide,abs} expr \<Rightarrow> size_t \<Rightarrow> 'a" where
  "expr_at (Vec c) i = cv_at c i"
| "expr_at (View e s n) i = expr_at e (s + i)"
| "expr_at (AddExpr l r) i = expr_at l i + expr_at r i"
| "expr_at (SubExpr l r) i = expr_at l i - expr_at r i"
| "expr_at (MultExpr l r) i = expr_at l i * expr_at r i"
| "expr_at (ScalarMultExpr e x) i = expr_at e i * x"
| "expr_at (ScalarDivExpr e x) i = expr_at e i div x"
| "expr_at (AbsExpr e) i = \<bar>expr_at e i\<bar>"
| "expr_at (EvalExpr e) i = expr_at e i"
| "expr_at (TransExpr e) i = expr_at e i"

definition evaluate :: "'a::{zero,plus,minus,times,divide,abs} expr \<Rightarrow> 'a CompressedVector" where
  "evaluate e =
     \<lparr>cv_size = expr_size e,
      cv_elems = map (\<lambda>j. (of_nat j, expr_at e (of_nat j)))
                   (filter (\<lambda>j. expr_at e (of_nat j) \<noteq> 0) [0..<unat (expr_size e)])\<rparr>"

text \<open>
  The function \<open>sub\<close> (lines 1732-1992): on a vector or a view it constructs the view
  (with the test of the constructor), on an expression it takes the subvectors of the
  operands and applies the operation to them. An exception of an operand passes through.
\<close>

definition both :: "('a \<Rightarrow> 'a \<Rightarrow> 'b) \<Rightarrow> error + 'a \<Rightarrow> error + 'a \<Rightarrow> error + 'b" where
  "both f l r =
     (case l of Inl e \<Rightarrow> Inl e | Inr a \<Rightarrow> (case r of Inl e \<Rightarrow> Inl e | Inr b \<Rightarrow> Inr (f a b)))"

fun sub :: "'a expr \<Rightarrow> size_t \<Rightarrow> size_t \<Rightarrow> error + 'a expr" where
  "sub (Vec c) start n =
     (if n = 0 \<or> start + n > cv_size c then Inl InvalidArgument else Inr (View (Vec c) start n))"
| "sub (View e s m) start n =
     (if n = 0 \<or> start + n > m then Inl InvalidArgument else Inr (View (View e s m) start n))"
| "sub (AddExpr l r) start n = both AddExpr (sub l start n) (sub r start n)"
| "sub (SubExpr l r) start n = both SubExpr (sub l start n) (sub r start n)"
| "sub (MultExpr l r) start n = both MultExpr (sub l start n) (sub r start n)"
| "sub (ScalarMultExpr e x) start n = map_sum id (\<lambda>e'. ScalarMultExpr e' x) (sub e start n)"
| "sub (ScalarDivExpr e x) start n = map_sum id (\<lambda>e'. ScalarDivExpr e' x) (sub e start n)"
| "sub (AbsExpr e) start n = map_sum id AbsExpr (sub e start n)"
| "sub (EvalExpr e) start n = map_sum id EvalExpr (sub e start n)"
| "sub (TransExpr e) start n = map_sum id TransExpr (sub e start n)"

text \<open>
  The rewriting as the specification words it:
  \<open>sub(A+B, s, n) == sub(A,s,n) + sub(B,s,n)\<close>, and likewise for the other operations.
\<close>

fun pushed :: "'a expr \<Rightarrow> size_t \<Rightarrow> size_t \<Rightarrow> 'a expr" where
  "pushed (AddExpr l r) s n = AddExpr (pushed l s n) (pushed r s n)"
| "pushed (SubExpr l r) s n = SubExpr (pushed l s n) (pushed r s n)"
| "pushed (MultExpr l r) s n = MultExpr (pushed l s n) (pushed r s n)"
| "pushed (ScalarMultExpr e x) s n = ScalarMultExpr (pushed e s n) x"
| "pushed (ScalarDivExpr e x) s n = ScalarDivExpr (pushed e s n) x"
| "pushed (AbsExpr e) s n = AbsExpr (pushed e s n)"
| "pushed (EvalExpr e) s n = EvalExpr (pushed e s n)"
| "pushed (TransExpr e) s n = TransExpr (pushed e s n)"
| "pushed e s n = View e s n"

text \<open>Expressions whose operands have equal sizes and whose views keep the invariant.\<close>

fun expr_wf :: "'a expr \<Rightarrow> bool" where
  "expr_wf (Vec c) \<longleftrightarrow> True"
| "expr_wf (View e s n) \<longleftrightarrow> expr_wf e \<and> n \<noteq> 0 \<and> unat s + unat n \<le> unat (expr_size e)"
| "expr_wf (AddExpr l r) \<longleftrightarrow> expr_wf l \<and> expr_wf r \<and> expr_size l = expr_size r"
| "expr_wf (SubExpr l r) \<longleftrightarrow> expr_wf l \<and> expr_wf r \<and> expr_size l = expr_size r"
| "expr_wf (MultExpr l r) \<longleftrightarrow> expr_wf l \<and> expr_wf r \<and> expr_size l = expr_size r"
| "expr_wf (ScalarMultExpr e x) \<longleftrightarrow> expr_wf e"
| "expr_wf (ScalarDivExpr e x) \<longleftrightarrow> expr_wf e"
| "expr_wf (AbsExpr e) \<longleftrightarrow> expr_wf e"
| "expr_wf (EvalExpr e) \<longleftrightarrow> expr_wf e"
| "expr_wf (TransExpr e) \<longleftrightarrow> expr_wf e"

section \<open>Concrete scenarios\<close>

text \<open>
  The scenario of section 8 of the specification: a vector of size 10 with the entries
  (2, 5), (5, -1) and (7, 3), and the view of the global indices 3..6.
\<close>

definition h0 :: "int heap" where
  "h0 = (\<lambda>_. \<lparr>cv_size = 10, cv_elems = [(2, 5), (5, -1), (7, 3)]\<rparr>)"

definition sv0 :: SparseSubvector where
  "sv0 = \<lparr>sv_vector = 0, sv_start = 3, sv_size = 4\<rparr>"


text \<open>The same vector with a negative value in the window, over the integers and the fractions.\<close>

definition h1 :: "int heap" where
  "h1 = (\<lambda>_. \<lparr>cv_size = 10, cv_elems = [(2, 5), (5, -7), (7, 3)]\<rparr>)"

definition q1 :: "rat heap" where
  "q1 = (\<lambda>_. \<lparr>cv_size = 10, cv_elems = [(2, 5), (5, -7), (7, 3)]\<rparr>)"

text \<open>A vector with an entry at global index 7, the first index behind the window of the view.\<close>

definition h2 :: "int heap" where
  "h2 = (\<lambda>_. \<lparr>cv_size = 10, cv_elems = [(2, 5), (5, -1), (7, 3), (9, 4)]\<rparr>)"

text \<open>
  The view that the constructor returns for \<open>start = 2 ^ 64 - 1\<close> and \<open>n = 2\<close> on the
  vector of size 10.
\<close>

definition sv_wrapped :: SparseSubvector where
  "sv_wrapped = \<lparr>sv_vector = 0, sv_start = 18446744073709551615, sv_size = 2\<rparr>"


text \<open>
  A store with a second vector of size 4; a view of the first vector that overlaps the view
  of the scenario; two views of the first vector with the same first index and different
  sizes.
\<close>

definition hh :: "int heap" where
  "hh = (\<lambda>a. if a = 0 then \<lparr>cv_size = 10, cv_elems = [(2, 5), (5, -1), (7, 3)]\<rparr>
              else \<lparr>cv_size = 4, cv_elems = [(1, 8), (3, 9)]\<rparr>)"

definition sv_shifted :: SparseSubvector where
  "sv_shifted = \<lparr>sv_vector = 0, sv_start = 4, sv_size = 4\<rparr>"

definition sv_short :: SparseSubvector where
  "sv_short = \<lparr>sv_vector = 0, sv_start = 2, sv_size = 3\<rparr>"

definition sv_long :: SparseSubvector where
  "sv_long = \<lparr>sv_vector = 0, sv_start = 2, sv_size = 5\<rparr>"


text \<open>Two vectors of size 10 whose sum has the entry (5, 0).\<close>

definition vA :: "int CompressedVector" where
  "vA = \<lparr>cv_size = 10, cv_elems = [(2, 5), (5, -1), (7, 3)]\<rparr>"

definition vB :: "int CompressedVector" where
  "vB = \<lparr>cv_size = 10, cv_elems = [(4, 2), (5, 1), (6, -6)]\<rparr>"


section \<open>Ranges of a sorted container\<close>

lemma lb_takeWhile: "take (cv_lowerBound i es) es = takeWhile (\<lambda>e. fst e < i) es"
  unfolding cv_lowerBound_def by (rule takeWhile_eq_take [symmetric])

lemma lb_le_length: "cv_lowerBound i es \<le> length es"
  unfolding cv_lowerBound_def by (rule length_takeWhile_le)

lemma lb_mono:
  "a \<le> b \<Longrightarrow> cv_lowerBound a es \<le> cv_lowerBound b es"
  unfolding cv_lowerBound_def
  by (induction es) auto

lemma lb_Cons: "cv_lowerBound i (e # es) = (if fst e < i then Suc (cv_lowerBound i es) else 0)"
  by (simp add: cv_lowerBound_def)

lemma lb_sorted_zero:
  "sorted_wrt (<) (map fst es) \<Longrightarrow> \<forall>e \<in> set es. a \<le> fst e \<Longrightarrow> cv_lowerBound a es = 0"
  by (cases es) (auto simp: cv_lowerBound_def not_less)

lemma window_filter:
  "sorted_wrt (<) (map fst es) \<Longrightarrow> a \<le> b \<Longrightarrow>
   drop (cv_lowerBound a es) (take (cv_lowerBound b es) es) = filter (\<lambda>e. a \<le> fst e \<and> fst e < b) es"
proof (induction es)
  case Nil
  then show ?case by (simp add: cv_lowerBound_def)
next
  case (Cons e es)
  then have srt: "sorted_wrt (<) (map fst es)" and gt: "\<forall>x \<in> set es. fst e < fst x"
    by auto
  show ?case
  proof (cases "fst e < a")
    case True
    with Cons srt show ?thesis by (auto simp: lb_Cons)
  next
    case na: False
    then have "\<forall>x \<in> set es. a \<le> fst x" using gt by (auto simp: not_less intro: order.trans[OF _ less_imp_le])
    then have z: "cv_lowerBound a es = 0" using srt by (rule lb_sorted_zero[rotated])
    show ?thesis
    proof (cases "fst e < b")
      case True
      with na z Cons.IH[OF srt Cons.prems(2)] show ?thesis by (simp add: lb_Cons)
    next
      case False
      then have "\<forall>x \<in> set es. \<not> fst x < b" using gt by auto
      then have "filter (\<lambda>e. a \<le> fst e \<and> fst e < b) es = []" by (simp add: filter_empty_conv)
      with na False show ?thesis by (simp add: lb_Cons)
    qed
  qed
qed

lemma erase_filter:
  "sorted_wrt (<) (map fst es) \<Longrightarrow> a \<le> b \<Longrightarrow>
   cv_erase (cv_lowerBound a es) (cv_lowerBound b es) es = filter (\<lambda>e. \<not> (a \<le> fst e \<and> fst e < b)) es"
proof (induction es)
  case Nil
  then show ?case by (simp add: cv_lowerBound_def cv_erase_def)
next
  case (Cons e es)
  then have srt: "sorted_wrt (<) (map fst es)" and gt: "\<forall>x \<in> set es. fst e < fst x"
    by auto
  show ?case
  proof (cases "fst e < a")
    case True
    with Cons srt show ?thesis by (auto simp: lb_Cons cv_erase_def)
  next
    case na: False
    then have "\<forall>x \<in> set es. a \<le> fst x" using gt by (auto simp: not_less intro: order.trans[OF _ less_imp_le])
    then have z: "cv_lowerBound a es = 0" using srt by (rule lb_sorted_zero[rotated])
    show ?thesis
    proof (cases "fst e < b")
      case True
      with na z Cons.IH[OF srt Cons.prems(2)] show ?thesis by (simp add: lb_Cons cv_erase_def)
    next
      case False
      then have "\<forall>x \<in> set es. \<not> fst x < b" using gt by auto
      then have "filter (\<lambda>e. \<not> (a \<le> fst e \<and> fst e < b)) es = es" by (simp add: filter_id_conv)
      with na False show ?thesis by (simp add: lb_Cons cv_erase_def)
    qed
  qed
qed

lemma lb_map_fst: "cv_lowerBound i es = length (takeWhile (\<lambda>g. g < i) (map fst es))"
  by (simp add: cv_lowerBound_def takeWhile_map comp_def)

lemma lb_same_indices: "map fst es' = map fst es \<Longrightarrow> cv_lowerBound i es' = cv_lowerBound i es"
  by (simp add: lb_map_fst)

lemma window_map:
  "sorted_wrt (<) (map fst es) \<Longrightarrow> a \<le> b \<Longrightarrow>
   take (cv_lowerBound a es) es @ map F (drop (cv_lowerBound a es) (take (cv_lowerBound b es) es))
     @ drop (cv_lowerBound b es) es
   = map (\<lambda>e. if a \<le> fst e \<and> fst e < b then F e else e) es"
proof (induction es)
  case Nil
  then show ?case by (simp add: cv_lowerBound_def)
next
  case (Cons e es)
  then have srt: "sorted_wrt (<) (map fst es)" and gt: "\<forall>x \<in> set es. fst e < fst x"
    by auto
  show ?case
  proof (cases "fst e < a")
    case True
    with Cons srt show ?thesis by (auto simp: lb_Cons)
  next
    case na: False
    then have "\<forall>x \<in> set es. a \<le> fst x"
      using gt by (auto simp: not_less intro: order.trans[OF _ less_imp_le])
    then have z: "cv_lowerBound a es = 0" using srt by (rule lb_sorted_zero[rotated])
    show ?thesis
    proof (cases "fst e < b")
      case True
      from na have "a \<le> fst e" by (simp add: not_less)
      with True na z Cons.IH[OF srt Cons.prems(2)] show ?thesis by (simp add: lb_Cons)
    next
      case False
      then have "\<forall>x \<in> set es. \<not> fst x < b" using gt by auto
      then have "map (\<lambda>e. if a \<le> fst e \<and> fst e < b then F e else e) es = es"
        by (simp add: map_idI)
      with na False show ?thesis by (simp add: lb_Cons)
    qed
  qed
qed


section \<open>Iterating a view\<close>

lemma valid_no_wrap:
  "sv_valid h sv \<Longrightarrow> unat (sv_start sv + sv_size sv) = unat (sv_start sv) + unat (sv_size sv)"
  unfolding sv_valid_def
  by (metis le_less_trans unat_add_lem unsigned_less)

lemma valid_start_le: "sv_valid h sv \<Longrightarrow> sv_start sv \<le> sv_start sv + sv_size sv"
  by (simp add: word_le_nat_alt valid_no_wrap)

lemma in_view_word:
  "sv_valid h sv \<Longrightarrow> in_view sv g \<longleftrightarrow> sv_start sv \<le> g \<and> g < sv_start sv + sv_size sv"
  by (simp add: in_view_def word_le_nat_alt word_less_nat_alt valid_no_wrap)

lemma traverse_window:
  "it_pos it \<le> it_pos (sv_end h sv) \<Longrightarrow>
   traverse h sv it =
     Inr (map (\<lambda>e. (fst e - it_offset it, snd e))
            (drop (it_pos it) (take (it_pos (sv_end h sv)) (cv_elems (h (sv_vector sv))))))"
proof (induction h sv it rule: traverse.induct)
  case (1 h sv it)
  let ?es = "cv_elems (h (sv_vector sv))"
  let ?q = "it_pos (sv_end h sv)"
  have q: "?q \<le> length ?es" by (simp add: sv_end_def lb_le_length)
  show ?case
  proof (cases "it_pos it = ?q")
    case True
    then show ?thesis by (subst traverse.simps) (simp add: it_eq_def)
  next
    case False
    with "1.prems" q have lt: "it_pos it < ?q" "it_pos it < length ?es" by auto
    have ih: "traverse h sv (it_incr it) =
       Inr (map (\<lambda>e. (fst e - it_offset it, snd e)) (drop (Suc (it_pos it)) (take ?q ?es)))"
      using "1.IH"[OF refl] False lt by (simp add: it_eq_def it_incr_def)
    have "drop (it_pos it) (take ?q ?es) = ?es ! it_pos it # drop (Suc (it_pos it)) (take ?q ?es)"
      using lt q by (simp add: Cons_nth_drop_Suc [symmetric])
    then show ?thesis
      using False lt ih
      by (subst traverse.simps) (simp add: it_eq_def elem_index_def elem_value_def Let_def)
  qed
qed

lemma local_index_mono:
  fixes s :: size_t
  shows "s \<le> a \<Longrightarrow> a < b \<Longrightarrow> a - s < b - s"
  by (simp add: word_less_nat_alt word_le_nat_alt unat_sub)

lemma sorted_local:
  "sorted_wrt (<) (map fst es) \<Longrightarrow> \<forall>e \<in> set es. (s::size_t) \<le> fst e \<Longrightarrow>
   sorted_wrt (<) (map fst (map (\<lambda>(g, v). (g - s, v)) es))"
  by (induction es) (auto simp: local_index_mono split: prod.splits)

lemma traverse_view_entries:
  assumes "cv_wf (h (sv_vector sv))" and "sv_valid h sv"
  shows "traverse h sv (sv_begin h sv) = Inr (view_entries h sv)"
proof -
  let ?es = "cv_elems (h (sv_vector sv))"
  let ?a = "sv_start sv" and ?b = "sv_start sv + sv_size sv"
  have srt: "sorted_wrt (<) (map fst ?es)" using assms(1) by (simp add: cv_wf_def)
  have ab: "?a \<le> ?b" using assms(2) by (rule valid_start_le)
  have le: "it_pos (sv_begin h sv) \<le> it_pos (sv_end h sv)"
    using ab by (simp add: sv_begin_def sv_end_def lb_mono)
  have flt: "filter (\<lambda>(g, v). in_view sv g) ?es = filter (\<lambda>e. ?a \<le> fst e \<and> fst e < ?b) ?es"
    by (rule filter_cong) (auto simp: in_view_word[OF assms(2)])
  have "traverse h sv (sv_begin h sv) =
     Inr (map (\<lambda>e. (fst e - ?a, snd e)) (filter (\<lambda>e. ?a \<le> fst e \<and> fst e < ?b) ?es))"
    using traverse_window[OF le] window_filter[OF srt ab]
    by (simp add: sv_begin_def sv_end_def)
  then show ?thesis
    using flt by (simp add: view_entries_def case_prod_unfold)
qed


text \<open>
  C1: iterating a view from \<open>begin()\<close> to \<open>end()\<close> enumerates exactly the stored entries
  of the backing container whose global index \<open>g\<close> lies in the window of the view, in
  strictly ascending order of the local index, and each element reports the local index
  \<open>g - start\<close>.
\<close>

theorem iteration_enumerates_view:
  assumes "cv_wf (h (sv_vector sv))" and "sv_valid h sv"
  shows "traverse h sv (sv_begin h sv) = Inr (view_entries h sv)
       \<and> sorted_wrt (<) (map fst (view_entries h sv))
       \<and> (\<forall>(g, v) \<in> set (cv_elems (h (sv_vector sv))). in_view sv g \<longrightarrow>
            unat (g - sv_start sv) = unat g - unat (sv_start sv))"
proof -
  let ?es = "cv_elems (h (sv_vector sv))"
  have srt: "sorted_wrt (<) (map fst ?es)" using assms(1) by (simp add: cv_wf_def)
  have 1: "traverse h sv (sv_begin h sv) = Inr (view_entries h sv)"
    using assms by (rule traverse_view_entries)
  have "sorted_wrt (<) (map fst (filter (\<lambda>(g, v). in_view sv g) ?es))"
    using srt by (simp add: sorted_wrt_map sorted_wrt_filter)
  moreover have "\<forall>e \<in> set (filter (\<lambda>(g, v). in_view sv g) ?es). sv_start sv \<le> fst e"
    by (auto simp: in_view_word[OF assms(2)])
  ultimately have 2: "sorted_wrt (<) (map fst (view_entries h sv))"
    unfolding view_entries_def by (rule sorted_local)
  have 3: "\<forall>(g, v) \<in> set ?es. in_view sv g \<longrightarrow> unat (g - sv_start sv) = unat g - unat (sv_start sv)"
    by (auto simp: in_view_def unat_sub word_le_nat_alt)
  from 1 2 3 show ?thesis by blast
qed

theorem iteration_enumerates_view_witness:
  "cv_wf (h0 0) \<and> sv_valid h0 sv0 \<and> traverse h0 sv0 (sv_begin h0 sv0) = Inr [(2, -1)]"
proof -
  have a: "cv_wf (h0 (sv_vector sv0))" by (simp add: cv_wf_def h0_def sv0_def)
  have b: "sv_valid h0 sv0" by (simp add: sv_valid_def h0_def sv0_def)
  have c: "view_entries h0 sv0 = [(2, -1)]" by (simp add: view_entries_def in_view_def h0_def sv0_def)
  from iteration_enumerates_view[OF a b] a b c show ?thesis by (simp add: sv0_def)
qed

section \<open>Resetting a view\<close>


lemma reset_elems:
  assumes "cv_wf (h (sv_vector sv))" and "sv_valid h sv"
  shows "cv_elems (reset h sv (sv_vector sv)) =
         filter (\<lambda>(g, v). \<not> in_view sv g) (cv_elems (h (sv_vector sv)))"
proof -
  let ?es = "cv_elems (h (sv_vector sv))"
  let ?a = "sv_start sv" and ?b = "sv_start sv + sv_size sv"
  have srt: "sorted_wrt (<) (map fst ?es)" using assms(1) by (simp add: cv_wf_def)
  have ab: "?a \<le> ?b" using assms(2) by (rule valid_start_le)
  have "filter (\<lambda>(g, v). \<not> in_view sv g) ?es = filter (\<lambda>e. \<not> (?a \<le> fst e \<and> fst e < ?b)) ?es"
    by (rule filter_cong) (auto simp: in_view_word[OF assms(2)])
  then show ?thesis
    using erase_filter[OF srt ab] by (simp add: reset_def Let_def)
qed

lemma reset_other: "a \<noteq> sv_vector sv \<Longrightarrow> reset h sv a = h a"
  by (simp add: reset_def Let_def)

lemma reset_size: "cv_size (reset h sv a) = cv_size (h a)"
  by (simp add: reset_def Let_def)

lemma reset_valid: "sv_valid h sv \<Longrightarrow> sv_valid (reset h sv) sv"
  by (simp add: sv_valid_def reset_size)

lemma reset_wf:
  assumes "cv_wf (h (sv_vector sv))" and "sv_valid h sv"
  shows "cv_wf (reset h sv (sv_vector sv))"
  using assms(1) unfolding cv_wf_def reset_elems[OF assms] reset_size
  by (auto simp: sorted_wrt_map sorted_wrt_filter)

text \<open>
  C7: \<open>reset()\<close> erases exactly the stored entries of the backing container whose global
  index lies in the window of the view: the entries outside the window stay as they are
  (index, value and order), iterating the view afterwards yields no entry, and no other
  vector of the store changes.
\<close>

theorem reset_erases_window:
  assumes "cv_wf (h (sv_vector sv))" and "sv_valid h sv"
  shows "cv_elems (reset h sv (sv_vector sv)) =
           filter (\<lambda>(g, v). \<not> in_view sv g) (cv_elems (h (sv_vector sv)))
       \<and> traverse (reset h sv) sv (sv_begin (reset h sv) sv) = Inr []
       \<and> cv_size (reset h sv (sv_vector sv)) = cv_size (h (sv_vector sv))
       \<and> (\<forall>a. a \<noteq> sv_vector sv \<longrightarrow> reset h sv a = h a)"
proof -
  have "view_entries (reset h sv) sv = []"
    by (auto simp: view_entries_def reset_elems[OF assms] filter_empty_conv)
  then have "traverse (reset h sv) sv (sv_begin (reset h sv) sv) = Inr []"
    using traverse_view_entries[OF reset_wf[OF assms] reset_valid[OF assms(2)]] by simp
  then show ?thesis
    by (simp add: reset_elems[OF assms] reset_size reset_other)
qed

theorem reset_erases_window_witness:
  "cv_wf (h0 0) \<and> sv_valid h0 sv0 \<and> cv_elems (reset h0 sv0 0) = [(2, 5), (7, 3)]
   \<and> traverse (reset h0 sv0) sv0 (sv_begin (reset h0 sv0) sv0) = Inr []"
proof -
  have a: "cv_wf (h0 (sv_vector sv0))" by (simp add: cv_wf_def h0_def sv0_def)
  have b: "sv_valid h0 sv0" by (simp add: sv_valid_def h0_def sv0_def)
  have c: "filter (\<lambda>(g, v). \<not> in_view sv0 g) (cv_elems (h0 (sv_vector sv0))) = [(2, 5), (7, 3)]"
    by (simp add: in_view_def h0_def sv0_def)
  from reset_erases_window[OF a b] a b c show ?thesis by (simp add: sv0_def)
qed

section \<open>Scalar multiplication and division\<close>


lemma scale_elements_window:
  "it_pos it \<le> it_pos (sv_end h sv) \<Longrightarrow>
   scale_elements h sv it f =
     Inr (h(sv_vector sv := (h (sv_vector sv))\<lparr>cv_elems :=
        take (it_pos it) (cv_elems (h (sv_vector sv)))
        @ map (\<lambda>e. (fst e, f (snd e)))
            (drop (it_pos it) (take (it_pos (sv_end h sv)) (cv_elems (h (sv_vector sv)))))
        @ drop (it_pos (sv_end h sv)) (cv_elems (h (sv_vector sv)))\<rparr>))"
proof (induction h sv it f rule: scale_elements.induct)
  case (1 h sv it f)
  let ?c = "h (sv_vector sv)"
  let ?es = "cv_elems ?c"
  let ?p = "it_pos it"
  let ?q = "it_pos (sv_end h sv)"
  have q: "?q \<le> length ?es" by (simp add: sv_end_def lb_le_length)
  show ?case
  proof (cases "?p = ?q")
    case True
    then show ?thesis by (subst scale_elements.simps) (simp add: it_eq_def Let_def)
  next
    case False
    with "1.prems" q have lt: "?p < ?q" "?p < length ?es" by auto
    let ?es1 = "?es[?p := (fst (?es ! ?p), f (snd (?es ! ?p)))]"
    let ?h1 = "h(sv_vector sv := ?c\<lparr>cv_elems := ?es1\<rparr>)"
    have fsts: "map fst ?es1 = map fst ?es"
      using lt by (intro nth_equalityI) (auto simp: nth_list_update)
    have q1: "it_pos (sv_end ?h1 sv) = ?q"
      by (simp add: sv_end_def lb_same_indices[OF fsts])
    have ne: "\<not> it_eq it (sv_end h sv)" using False by (simp add: it_eq_def)
    have pinc: "it_pos (it_incr it) = Suc ?p" by (simp add: it_incr_def)
    have le1: "it_pos (it_incr it) \<le> it_pos (sv_end ?h1 sv)" using lt q1 pinc by simp
    have h1v: "?h1 (sv_vector sv) = ?c\<lparr>cv_elems := ?es1\<rparr>" by simp
    note ih = "1.IH"[OF refl refl ne lt(2) le1]
    have step: "scale_elements h sv it f = scale_elements ?h1 sv (it_incr it) f"
      using ne lt by (subst scale_elements.simps) (simp add: Let_def)
    have t1: "take (Suc ?p) ?es1 = take ?p ?es @ [(fst (?es ! ?p), f (snd (?es ! ?p)))]"
      using lt by (simp add: take_Suc_conv_app_nth)
    have t2: "drop (Suc ?p) (take ?q ?es1) = drop (Suc ?p) (take ?q ?es)"
      by (simp add: take_update_swap drop_update_cancel)
    have t3: "drop ?q ?es1 = drop ?q ?es"
      using lt by (simp add: drop_update_cancel)
    have t4: "drop ?p (take ?q ?es) = ?es ! ?p # drop (Suc ?p) (take ?q ?es)"
      using lt q by (simp add: Cons_nth_drop_Suc [symmetric])
    show ?thesis
      unfolding step ih q1 pinc h1v t4 by (simp add: t1 t2 t3 fun_eq_iff)
  qed
qed

lemma scale_elements_view:
  assumes "cv_wf (h (sv_vector sv))" and "sv_valid h sv"
  shows "scale_elements h sv (sv_begin h sv) f =
     Inr (h(sv_vector sv := (h (sv_vector sv))\<lparr>cv_elems := scaled sv f (cv_elems (h (sv_vector sv)))\<rparr>))"
proof -
  let ?es = "cv_elems (h (sv_vector sv))"
  let ?a = "sv_start sv" and ?b = "sv_start sv + sv_size sv"
  have srt: "sorted_wrt (<) (map fst ?es)" using assms(1) by (simp add: cv_wf_def)
  have ab: "?a \<le> ?b" using assms(2) by (rule valid_start_le)
  have le: "it_pos (sv_begin h sv) \<le> it_pos (sv_end h sv)"
    using ab by (simp add: sv_begin_def sv_end_def lb_mono)
  have "scaled sv f ?es = map (\<lambda>e. if ?a \<le> fst e \<and> fst e < ?b then (fst e, f (snd e)) else e) ?es"
    unfolding scaled_def by (rule map_cong) (auto simp: in_view_word[OF assms(2)])
  then show ?thesis
    using scale_elements_window[OF le, of f] window_map[OF srt ab, of "\<lambda>e. (fst e, f (snd e))"]
    by (simp add: sv_begin_def sv_end_def)
qed

lemma scaled_indices: "map fst (scaled sv f es) = map fst es"
  by (simp add: scaled_def case_prod_unfold comp_def)

text \<open>
  C8: \<open>view *= s\<close> multiplies in place the value of each stored entry in the window of the
  view by \<open>s\<close> and inserts nothing: the stored indices of the backing container are the
  same before and after, and every entry outside the window keeps its value.
\<close>

theorem scalar_mult_in_place:
  assumes "cv_wf (h (sv_vector sv))" and "sv_valid h sv"
  shows "mult_assign_scalar mul h sv s =
           Inr (h(sv_vector sv := (h (sv_vector sv))\<lparr>cv_elems :=
                  scaled sv (\<lambda>v. mul v s) (cv_elems (h (sv_vector sv)))\<rparr>))
       \<and> map fst (scaled sv (\<lambda>v. mul v s) (cv_elems (h (sv_vector sv))))
           = map fst (cv_elems (h (sv_vector sv)))
       \<and> (\<forall>(g, v) \<in> set (cv_elems (h (sv_vector sv))). \<not> in_view sv g \<longrightarrow>
            (g, v) \<in> set (scaled sv (\<lambda>v. mul v s) (cv_elems (h (sv_vector sv)))))"
  unfolding mult_assign_scalar_def scale_elements_view[OF assms] scaled_indices
  by (auto simp: scaled_def image_iff intro!: bexI)

theorem scalar_mult_in_place_witness:
  "cv_wf (h0 0) \<and> sv_valid h0 sv0 \<and>
   mult_assign_scalar (*) h0 sv0 3 = Inr (h0(0 := \<lparr>cv_size = 10, cv_elems = [(2, 5), (5, -3), (7, 3)]\<rparr>))"
proof -
  have a: "cv_wf (h0 (sv_vector sv0))" by (simp add: cv_wf_def h0_def sv0_def)
  have b: "sv_valid h0 sv0" by (simp add: sv_valid_def h0_def sv0_def)
  have c: "scaled sv0 (\<lambda>v. v * 3) (cv_elems (h0 (sv_vector sv0))) = [(2, 5), (5, -3), (7, 3)]"
    by (simp add: scaled_def in_view_def h0_def sv0_def)
  have d: "h0 0 = \<lparr>cv_size = 10, cv_elems = [(2, 5), (5, -1), (7, 3)]\<rparr>" by (simp add: h0_def)
  from scalar_mult_in_place[OF a b, of "(*)" 3] a b c d show ?thesis by (simp add: sv0_def)
qed

lemma divide_elements_window:
  "it_pos it \<le> it_pos (sv_end h sv) \<Longrightarrow>
   \<forall>e \<in> set (drop (it_pos it) (take (it_pos (sv_end h sv)) (cv_elems (h (sv_vector sv))))).
      f (snd e) \<noteq> None \<Longrightarrow>
   divide_elements h sv it f =
     Inr (h(sv_vector sv := (h (sv_vector sv))\<lparr>cv_elems :=
        take (it_pos it) (cv_elems (h (sv_vector sv)))
        @ map (\<lambda>e. (fst e, case f (snd e) of Some w \<Rightarrow> w | None \<Rightarrow> snd e))
            (drop (it_pos it) (take (it_pos (sv_end h sv)) (cv_elems (h (sv_vector sv)))))
        @ drop (it_pos (sv_end h sv)) (cv_elems (h (sv_vector sv)))\<rparr>))"
proof (induction h sv it f rule: divide_elements.induct)
  case (1 h sv it f)
  let ?c = "h (sv_vector sv)"
  let ?es = "cv_elems ?c"
  let ?p = "it_pos it"
  let ?q = "it_pos (sv_end h sv)"
  have q: "?q \<le> length ?es" by (simp add: sv_end_def lb_le_length)
  show ?case
  proof (cases "?p = ?q")
    case True
    then show ?thesis by (subst divide_elements.simps) (simp add: it_eq_def Let_def)
  next
    case False
    with "1.prems"(1) q have lt: "?p < ?q" "?p < length ?es" by auto
    have t4: "drop ?p (take ?q ?es) = ?es ! ?p # drop (Suc ?p) (take ?q ?es)"
      using lt q by (simp add: Cons_nth_drop_Suc [symmetric])
    with "1.prems"(2) obtain w where w: "f (snd (?es ! ?p)) = Some w" by auto
    let ?es1 = "?es[?p := (fst (?es ! ?p), w)]"
    let ?h1 = "h(sv_vector sv := ?c\<lparr>cv_elems := ?es1\<rparr>)"
    have fsts: "map fst ?es1 = map fst ?es"
      using lt by (intro nth_equalityI) (auto simp: nth_list_update)
    have q1: "it_pos (sv_end ?h1 sv) = ?q"
      by (simp add: sv_end_def lb_same_indices[OF fsts])
    have ne: "\<not> it_eq it (sv_end h sv)" using False by (simp add: it_eq_def)
    have pinc: "it_pos (it_incr it) = Suc ?p" by (simp add: it_incr_def)
    have le1: "it_pos (it_incr it) \<le> it_pos (sv_end ?h1 sv)" using lt q1 pinc by simp
    have h1v: "?h1 (sv_vector sv) = ?c\<lparr>cv_elems := ?es1\<rparr>" by simp
    have t1: "take (Suc ?p) ?es1 = take ?p ?es @ [(fst (?es ! ?p), w)]"
      using lt by (simp add: take_Suc_conv_app_nth)
    have t2: "drop (Suc ?p) (take ?q ?es1) = drop (Suc ?p) (take ?q ?es)"
      by (simp add: take_update_swap drop_update_cancel)
    have t3: "drop ?q ?es1 = drop ?q ?es"
      using lt by (simp add: drop_update_cancel)
    have rest: "\<forall>e \<in> set (drop (it_pos (it_incr it))
          (take (it_pos (sv_end ?h1 sv)) (cv_elems (?h1 (sv_vector sv))))). f (snd e) \<noteq> None"
      using "1.prems"(2) unfolding q1 pinc h1v t4 by (simp add: t2)
    note ih = "1.IH"[OF refl refl ne lt(2) w le1 rest]
    have step: "divide_elements h sv it f = divide_elements ?h1 sv (it_incr it) f"
      using ne lt w by (subst divide_elements.simps) (simp add: Let_def)
    show ?thesis
      unfolding step ih q1 pinc h1v t4 by (simp add: t1 t2 t3 w fun_eq_iff)
  qed
qed

lemma divide_elements_undefined:
  "it_pos it \<le> it_pos (sv_end h sv) \<Longrightarrow>
   \<exists>e \<in> set (drop (it_pos it) (take (it_pos (sv_end h sv)) (cv_elems (h (sv_vector sv))))).
      f (snd e) = None \<Longrightarrow>
   \<exists>h'. divide_elements h sv it f = Inl (DivisionUndefined, h')"
proof (induction h sv it f rule: divide_elements.induct)
  case (1 h sv it f)
  let ?c = "h (sv_vector sv)"
  let ?es = "cv_elems ?c"
  let ?p = "it_pos it"
  let ?q = "it_pos (sv_end h sv)"
  have q: "?q \<le> length ?es" by (simp add: sv_end_def lb_le_length)
  from "1.prems"(2) have "drop ?p (take ?q ?es) \<noteq> []" by auto
  then have "?p \<noteq> ?q" by auto
  with "1.prems"(1) q have lt: "?p < ?q" "?p < length ?es" by auto
  have ne: "\<not> it_eq it (sv_end h sv)" using lt by (simp add: it_eq_def)
  have t4: "drop ?p (take ?q ?es) = ?es ! ?p # drop (Suc ?p) (take ?q ?es)"
    using lt q by (simp add: Cons_nth_drop_Suc [symmetric])
  show ?case
  proof (cases "f (snd (?es ! ?p))")
    case None
    then show ?thesis
      using ne lt by (subst divide_elements.simps) (simp add: Let_def)
  next
    case (Some w)
    let ?es1 = "?es[?p := (fst (?es ! ?p), w)]"
    let ?h1 = "h(sv_vector sv := ?c\<lparr>cv_elems := ?es1\<rparr>)"
    have fsts: "map fst ?es1 = map fst ?es"
      using lt by (intro nth_equalityI) (auto simp: nth_list_update)
    have q1: "it_pos (sv_end ?h1 sv) = ?q"
      by (simp add: sv_end_def lb_same_indices[OF fsts])
    have pinc: "it_pos (it_incr it) = Suc ?p" by (simp add: it_incr_def)
    have le1: "it_pos (it_incr it) \<le> it_pos (sv_end ?h1 sv)" using lt q1 pinc by simp
    have h1v: "?h1 (sv_vector sv) = ?c\<lparr>cv_elems := ?es1\<rparr>" by simp
    have t2: "drop (Suc ?p) (take ?q ?es1) = drop (Suc ?p) (take ?q ?es)"
      by (simp add: take_update_swap drop_update_cancel)
    from "1.prems"(2) Some have "\<exists>e \<in> set (drop (Suc ?p) (take ?q ?es)). f (snd e) = None"
      unfolding t4 by auto
    then have rest: "\<exists>e \<in> set (drop (it_pos (it_incr it))
          (take (it_pos (sv_end ?h1 sv)) (cv_elems (?h1 (sv_vector sv))))). f (snd e) = None"
      unfolding q1 pinc h1v by (simp add: t2)
    note ih = "1.IH"[OF refl refl ne lt(2) Some le1 rest]
    have step: "divide_elements h sv it f = divide_elements ?h1 sv (it_incr it) f"
      using ne lt Some by (subst divide_elements.simps) (simp add: Let_def)
    show ?thesis unfolding step by (rule ih)
  qed
qed

lemma window_set:
  assumes "cv_wf (h (sv_vector sv))" and "sv_valid h sv"
  shows "set (drop (it_pos (sv_begin h sv)) (take (it_pos (sv_end h sv)) (cv_elems (h (sv_vector sv)))))
         = {e \<in> set (cv_elems (h (sv_vector sv))). in_view sv (fst e)}"
proof -
  let ?es = "cv_elems (h (sv_vector sv))"
  let ?a = "sv_start sv" and ?b = "sv_start sv + sv_size sv"
  have srt: "sorted_wrt (<) (map fst ?es)" using assms(1) by (simp add: cv_wf_def)
  have ab: "?a \<le> ?b" using assms(2) by (rule valid_start_le)
  show ?thesis
    using window_filter[OF srt ab]
    by (auto simp: sv_begin_def sv_end_def in_view_word[OF assms(2)])
qed

lemma divide_elements_view:
  assumes "cv_wf (h (sv_vector sv))" and "sv_valid h sv"
    and "\<forall>e \<in> set (cv_elems (h (sv_vector sv))). in_view sv (fst e) \<longrightarrow> f (snd e) \<noteq> None"
  shows "divide_elements h sv (sv_begin h sv) f =
     Inr (h(sv_vector sv := (h (sv_vector sv))\<lparr>cv_elems :=
        scaled sv (\<lambda>v. case f v of Some w \<Rightarrow> w | None \<Rightarrow> v) (cv_elems (h (sv_vector sv)))\<rparr>))"
proof -
  let ?es = "cv_elems (h (sv_vector sv))"
  let ?a = "sv_start sv" and ?b = "sv_start sv + sv_size sv"
  let ?g = "\<lambda>v. case f v of Some w \<Rightarrow> w | None \<Rightarrow> v"
  have srt: "sorted_wrt (<) (map fst ?es)" using assms(1) by (simp add: cv_wf_def)
  have ab: "?a \<le> ?b" using assms(2) by (rule valid_start_le)
  have le: "it_pos (sv_begin h sv) \<le> it_pos (sv_end h sv)"
    using ab by (simp add: sv_begin_def sv_end_def lb_mono)
  have def: "\<forall>e \<in> set (drop (it_pos (sv_begin h sv)) (take (it_pos (sv_end h sv)) ?es)). f (snd e) \<noteq> None"
    using assms(3) unfolding window_set[OF assms(1,2)] by simp
  have "scaled sv ?g ?es = map (\<lambda>e. if ?a \<le> fst e \<and> fst e < ?b then (fst e, ?g (snd e)) else e) ?es"
    unfolding scaled_def by (rule map_cong) (auto simp: in_view_word[OF assms(2)] split: option.splits)
  then show ?thesis
    using divide_elements_window[OF le def] window_map[OF srt ab, of "\<lambda>e. (fst e, ?g (snd e))"]
    by (simp add: sv_begin_def sv_end_def)
qed

lemma divide_elements_view_undefined:
  assumes "cv_wf (h (sv_vector sv))" and "sv_valid h sv"
    and "\<not> (\<forall>e \<in> set (cv_elems (h (sv_vector sv))). in_view sv (fst e) \<longrightarrow> f (snd e) \<noteq> None)"
  shows "\<exists>h'. divide_elements h sv (sv_begin h sv) f = Inl (DivisionUndefined, h')"
proof -
  have le: "it_pos (sv_begin h sv) \<le> it_pos (sv_end h sv)"
    using valid_start_le[OF assms(2)] by (simp add: sv_begin_def sv_end_def lb_mono)
  have "\<exists>e \<in> set (drop (it_pos (sv_begin h sv)) (take (it_pos (sv_end h sv)) (cv_elems (h (sv_vector sv))))).
      f (snd e) = None"
    using assms(3) unfolding window_set[OF assms(1,2)] by fastforce
  with le show ?thesis by (rule divide_elements_undefined)
qed

text \<open>
  C9: for a non-zero scalar \<open>s\<close>, \<open>view /= s\<close> updates each stored entry of the window in
  place, multiplying by the reciprocal of \<open>s\<close> when the type of the division is a floating
  point type and dividing the stored value by \<open>s\<close> otherwise, wherever the arithmetic
  defines these divisions. A zero scalar is caught by an assertion only: where assertions
  are compiled in the operation stops there; where they are not, no test is made and no
  exception is raised, the operation divides, and it leaves its contract exactly when the
  arithmetic does not define the division (an integral division by zero of a stored entry).
\<close>

theorem scalar_div_in_place:
  fixes ar :: "('a, 's, 't) arith" and s :: 's
  assumes "cv_wf (h (sv_vector sv))" and "sv_valid h sv"
  defines "es \<equiv> cv_elems (h (sv_vector sv))"
  defines "updated \<equiv> h(sv_vector sv := (h (sv_vector sv))\<lparr>cv_elems := scaled sv (scalar_div_value ar s) es\<rparr>)"
  shows "(\<not> is_zero ar s \<longrightarrow> division_defined ar sv es s \<longrightarrow> div_assign_scalar dbg ar h sv s = Inr updated)
       \<and> (is_zero ar s \<longrightarrow> div_assign_scalar True ar h sv s = Inl (AssertionFailed, h))
       \<and> (division_defined ar sv es s \<longrightarrow> div_assign_scalar False ar h sv s = Inr updated)
       \<and> (\<not> division_defined ar sv es s \<longrightarrow>
            (\<exists>h'. div_assign_scalar False ar h sv s = Inl (DivisionUndefined, h')))
       \<and> map fst (scaled sv (scalar_div_value ar s) es) = map fst es"
proof -
  have ok: "div_assign_scalar dbg ar h sv s = Inr updated"
    if d: "division_defined ar sv es s" and z: "\<not> (dbg \<and> is_zero ar s)" for dbg
  proof (cases "is_floating ar")
    case True
    with d obtain t where t: "reciprocal ar s = Some t" by (auto simp: division_defined_def)
    have "(\<lambda>v. mul_value ar v t) = scalar_div_value ar s"
      using True t by (simp add: scalar_div_value_def fun_eq_iff)
    then show ?thesis
      using True t z scale_elements_view[OF assms(1,2), of "\<lambda>v. mul_value ar v t"]
      by (simp add: div_assign_scalar_def updated_def es_def)
  next
    case False
    with d have "\<forall>e \<in> set (cv_elems (h (sv_vector sv))). in_view sv (fst e) \<longrightarrow> div_value ar (snd e) s \<noteq> None"
      by (simp add: division_defined_def es_def)
    from divide_elements_view[OF assms(1,2) this]
    have "divide_elements h sv (sv_begin h sv) (\<lambda>v. div_value ar v s) =
       Inr (h(sv_vector sv := (h (sv_vector sv))\<lparr>cv_elems :=
              scaled sv (\<lambda>v. case div_value ar v s of Some w \<Rightarrow> w | None \<Rightarrow> v) es\<rparr>))"
      by (simp add: es_def)
    moreover have "(\<lambda>v. case div_value ar v s of Some w \<Rightarrow> w | None \<Rightarrow> v) = scalar_div_value ar s"
      using False by (simp add: scalar_div_value_def fun_eq_iff)
    ultimately show ?thesis
      using False z by (simp add: div_assign_scalar_def updated_def)
  qed
  have bad: "\<exists>h'. div_assign_scalar False ar h sv s = Inl (DivisionUndefined, h')"
    if d: "\<not> division_defined ar sv es s"
  proof (cases "is_floating ar")
    case True
    with d show ?thesis by (simp add: division_defined_def div_assign_scalar_def)
  next
    case False
    with d have "\<not> (\<forall>e \<in> set (cv_elems (h (sv_vector sv))). in_view sv (fst e) \<longrightarrow> div_value ar (snd e) s \<noteq> None)"
      by (simp add: division_defined_def es_def)
    from divide_elements_view_undefined[OF assms(1,2) this] False show ?thesis
      by (simp add: div_assign_scalar_def)
  qed
  have 2: "is_zero ar s \<longrightarrow> div_assign_scalar True ar h sv s = Inl (AssertionFailed, h)"
    by (simp add: div_assign_scalar_def)
  from ok[of dbg] ok[of False] bad 2 show ?thesis by (simp add: scaled_indices)
qed

theorem scalar_div_in_place_witness:
  "cv_wf (h1 0) \<and> sv_valid h1 sv0 \<and> \<not> is_zero int_arith (2::int)
   \<and> division_defined int_arith sv0 (cv_elems (h1 0)) 2
   \<and> \<not> division_defined int_arith sv0 (cv_elems (h1 0)) 0
   \<and> div_assign_scalar False int_arith h1 sv0 2
       = Inr (h1(0 := \<lparr>cv_size = 10, cv_elems = [(2, 5), (5, -3), (7, 3)]\<rparr>))
   \<and> div_assign_scalar True int_arith h1 sv0 0 = Inl (AssertionFailed, h1)
   \<and> (\<exists>h'. div_assign_scalar False int_arith h1 sv0 0 = Inl (DivisionUndefined, h'))"
proof -
  have a: "cv_wf (h1 (sv_vector sv0))" by (simp add: cv_wf_def h1_def sv0_def)
  have b: "sv_valid h1 sv0" by (simp add: sv_valid_def h1_def sv0_def)
  have es: "cv_elems (h1 (sv_vector sv0)) = cv_elems (h1 0)" by (simp add: h1_def)
  have c: "scaled sv0 (scalar_div_value int_arith 2) (cv_elems (h1 0)) = [(2, 5), (5, -3), (7, 3)]"
    by (simp add: scaled_def in_view_def h1_def sv0_def scalar_div_value_def int_arith_def trunc_div_def)
  have d: "h1 0 = \<lparr>cv_size = 10, cv_elems = [(2, 5), (5, -7), (7, 3)]\<rparr>" by (simp add: h1_def)
  have z: "is_zero int_arith (0::int)" "\<not> is_zero int_arith (2::int)" by (simp_all add: int_arith_def)
  have d2: "division_defined int_arith sv0 (cv_elems (h1 0)) 2"
    by (simp add: division_defined_def int_arith_def)
  have d0: "\<not> division_defined int_arith sv0 (cv_elems (h1 0)) 0"
    by (simp add: division_defined_def int_arith_def h1_def sv0_def in_view_def)
  note t2 = scalar_div_in_place[OF a b, where ar = int_arith and s = 2 and dbg = False, unfolded es]
  note t0 = scalar_div_in_place[OF a b, where ar = int_arith and s = 0 and dbg = False, unfolded es]
  from t2 d2 have r2: "div_assign_scalar False int_arith h1 sv0 2 =
      Inr (h1(sv_vector sv0 := (h1 (sv_vector sv0))\<lparr>cv_elems := scaled sv0 (scalar_div_value int_arith 2) (cv_elems (h1 0))\<rparr>))"
    by blast
  from t0 z(1) have r1: "div_assign_scalar True int_arith h1 sv0 0 = Inl (AssertionFailed, h1)"
    by blast
  from t0 d0 have r0: "\<exists>h'. div_assign_scalar False int_arith h1 sv0 0 = Inl (DivisionUndefined, h')"
    by blast
  from r2 c d have "div_assign_scalar False int_arith h1 sv0 2
       = Inr (h1(0 := \<lparr>cv_size = 10, cv_elems = [(2, 5), (5, -3), (7, 3)]\<rparr>))"
    by (simp add: sv0_def)
  with a b z d2 d0 r1 r0 show ?thesis by (simp add: sv0_def)
qed

text \<open>The branch of the reciprocal, at the fractions.\<close>

lemma scalar_div_reciprocal_example:
  "div_assign_scalar False rat_arith q1 sv0 2 =
     Inr (q1(0 := \<lparr>cv_size = 10, cv_elems = [(2, 5), (5, -7/2), (7, 3)]\<rparr>))
   \<and> div_assign_scalar False rat_arith q1 sv0 0 = Inl (DivisionUndefined, q1)"
proof -
  have a: "cv_wf (q1 (sv_vector sv0))" by (simp add: cv_wf_def q1_def sv0_def)
  have b: "sv_valid q1 sv0" by (simp add: sv_valid_def q1_def sv0_def)
  have c: "scaled sv0 (\<lambda>v. mul_value rat_arith v (1 / 2)) (cv_elems (q1 (sv_vector sv0))) = [(2, 5), (5, -7/2), (7, 3)]"
    by (simp add: scaled_def in_view_def q1_def sv0_def rat_arith_def)
  have d: "q1 0 = \<lparr>cv_size = 10, cv_elems = [(2, 5), (5, -7), (7, 3)]\<rparr>" by (simp add: q1_def)
  have r: "reciprocal rat_arith 2 = Some (1 / 2)" "reciprocal rat_arith 0 = None"
    "is_floating rat_arith" by (simp_all add: rat_arith_def)
  show ?thesis
    unfolding div_assign_scalar_def using r c d scale_elements_view[OF a b, of "\<lambda>v. mul_value rat_arith v (1 / 2)"]
    by (simp add: sv0_def)
qed

section \<open>Capacity\<close>


text \<open>
  C10: \<open>reserve(n)\<close> is a no-op for every \<open>n\<close>, and \<open>capacity()\<close> is the size of the view,
  whatever the store holds.
\<close>

theorem reserve_capacity:
  "reserve h sv n = h \<and> capacity h sv = size_sv h sv \<and> capacity h' sv = capacity h sv
   \<and> capacity (reserve h sv n) sv = sv_size sv"
  by (simp add: reserve_def capacity_def size_sv_def)


section \<open>Construction\<close>


text \<open>
  C6: constructing a view fails if and only if \<open>length = 0\<close> or \<open>start + length\<close> exceeds
  the size of the container. The constructor computes the sum in \<^verbatim>\<open>size_t\<close>: for
  \<open>start = 2 ^ 64 - 1\<close> and \<open>length = 2\<close> on a vector of size 10 the sum wraps around to 1,
  no error is raised, and the view that results breaks the invariant (iterating it leaves
  the stored entries).
\<close>

theorem ctor_wraps_around:
  "SparseSubvector_ctor h0 0 18446744073709551615 2 = (Inr sv_wrapped, h0)
   \<and> unat (sv_start sv_wrapped) + unat (sv_size sv_wrapped) > unat (cv_size (h0 0))
   \<and> traverse h0 sv_wrapped (sv_begin h0 sv_wrapped) = Inl OutOfBounds"
  by (simp add: SparseSubvector_ctor_def sv_wrapped_def h0_def traverse.simps sv_begin_def sv_end_def
      cv_lowerBound_def it_eq_def it_incr_def Let_def)

text \<open>The example of the specification, and the claim where the sum does not wrap around.\<close>

lemma ctor_spec_example:
  "SparseSubvector_ctor h0 0 8 5 = (Inl InvalidArgument, h0)"
  by (simp add: SparseSubvector_ctor_def h0_def)

lemma ctor_without_wrap:
  assumes "unat start + unat n < 2 ^ 64"
  shows "(fst (SparseSubvector_ctor h vec start n) = Inl InvalidArgument
            \<longleftrightarrow> n = 0 \<or> unat start + unat n > unat (cv_size (h vec)))
       \<and> (\<forall>sv. fst (SparseSubvector_ctor h vec start n) = Inr sv \<longrightarrow>
             size_sv h sv = n \<and> sv_start sv = start \<and> sv_vector sv = vec \<and> sv_valid h sv)
       \<and> snd (SparseSubvector_ctor h vec start n) = h"
proof -
  have "unat (start + n) = unat start + unat n"
    using assms by (simp add: unat_add_lem [THEN iffD1])
  then show ?thesis
    by (auto simp: SparseSubvector_ctor_def word_less_nat_alt size_sv_def sv_valid_def)
qed

section \<open>Lookup\<close>

lemma takeWhile_length_le: "p < length xs \<Longrightarrow> \<not> P (xs ! p) \<Longrightarrow> length (takeWhile P xs) \<le> p"
proof (induction xs arbitrary: p)
  case Nil
  then show ?case by simp
next
  case (Cons x xs)
  then show ?case by (cases p) auto
qed

lemma takeWhile_length_mono:
  "(\<And>x. P x \<Longrightarrow> Q x) \<Longrightarrow> length (takeWhile P xs) \<le> length (takeWhile Q xs)"
  by (induction xs) auto

lemma valid_local_no_wrap:
  assumes "sv_valid h sv" and "unat i < unat (sv_size sv)"
  shows "unat (sv_start sv + i) = unat (sv_start sv) + unat i"
proof -
  have "unat (cv_size (h (sv_vector sv))) < 2 ^ LENGTH(64)"
    by (rule unsigned_less)
  then have "unat (sv_start sv) + unat i < 2 ^ 64"
    using assms by (simp add: sv_valid_def)
  then show ?thesis by (simp add: unat_add_lem [THEN iffD1])
qed

lemma bound_clamped:
  assumes v: "sv_valid h sv"
    and mono: "\<And>e. P e \<Longrightarrow> fst e < sv_start sv + sv_size sv"
    and stop: "\<And>e. \<not> P e \<Longrightarrow> sv_start sv \<le> fst e"
    and out: "outside_view es sv (length (takeWhile P es))"
  shows "length (takeWhile P es) = cv_lowerBound (sv_start sv + sv_size sv) es"
proof -
  let ?p = "length (takeWhile P es)"
  let ?q = "cv_lowerBound (sv_start sv + sv_size sv) es"
  have pq: "?p \<le> ?q"
    unfolding cv_lowerBound_def by (rule takeWhile_length_mono) (rule mono)
  have q: "?q \<le> length es" by (rule lb_le_length)
  show ?thesis
  proof (cases "?p = length es")
    case True
    with pq q show ?thesis by simp
  next
    case False
    then have lt: "?p < length es" using length_takeWhile_le[of P es] by simp
    then have "\<not> P (es ! ?p)" by (rule nth_length_takeWhile)
    then have lo: "sv_start sv \<le> fst (es ! ?p)" by (rule stop)
    from out False lt have "\<not> in_view sv (fst (es ! ?p))"
      by (simp add: outside_view_def cv_end_def index_at_def)
    with lo have "\<not> fst (es ! ?p) < sv_start sv + sv_size sv"
      by (simp add: in_view_word[OF v])
    then have "?q \<le> ?p"
      unfolding cv_lowerBound_def using lt by (intro takeWhile_length_le) auto
    with pq show ?thesis by simp
  qed
qed

text \<open>
  C5: for a local index \<open>i\<close> below the size of the view, \<open>find\<close>, \<open>lowerBound\<close> and
  \<open>upperBound\<close> search the backing container at the global index \<open>start + i\<close>, and the
  iterator they return is the \<open>end()\<close> of the view whenever the search of the container
  lands outside the view; in particular an \<open>upperBound\<close> that lands on the global index
  \<open>start + n\<close> is the \<open>end()\<close> of the view.
\<close>

theorem lookup_returns_local_end:
  assumes "sv_valid h sv" and "unat i < unat (sv_size sv)"
  defines "es \<equiv> cv_elems (h (sv_vector sv))"
  defines "g \<equiv> sv_start sv + i"
  shows "(outside_view es sv (cv_find g es) \<longrightarrow> find_sv h sv i = sv_end h sv)
       \<and> (\<not> outside_view es sv (cv_find g es) \<longrightarrow>
            find_sv h sv i = \<lparr>it_pos = cv_find g es, it_offset = sv_start sv\<rparr>
            \<and> index_at es (cv_find g es) = Some g)
       \<and> lowerBound_sv h sv i = \<lparr>it_pos = cv_lowerBound g es, it_offset = sv_start sv\<rparr>
       \<and> (outside_view es sv (cv_lowerBound g es) \<longrightarrow> lowerBound_sv h sv i = sv_end h sv)
       \<and> upperBound_sv h sv i = \<lparr>it_pos = cv_upperBound g es, it_offset = sv_start sv\<rparr>
       \<and> (outside_view es sv (cv_upperBound g es) \<longrightarrow> upperBound_sv h sv i = sv_end h sv)
       \<and> (index_at es (cv_upperBound g es) = Some (sv_start sv + sv_size sv) \<longrightarrow>
            upperBound_sv h sv i = sv_end h sv)"
proof -
  have gi: "unat g = unat (sv_start sv) + unat i"
    unfolding g_def using assms(1,2) by (rule valid_local_no_wrap)
  have nw: "unat (sv_start sv + sv_size sv) = unat (sv_start sv) + unat (sv_size sv)"
    using assms(1) by (rule valid_no_wrap)
  have g_in: "in_view sv g" using gi assms(2) by (simp add: in_view_def)
  have g_lo: "sv_start sv \<le> g" and g_hi: "g < sv_start sv + sv_size sv"
    using gi nw assms(2) by (simp_all add: word_le_nat_alt word_less_nat_alt)
  \<comment> \<open>find\<close>
  have found: "cv_find g es \<noteq> cv_end es \<Longrightarrow> index_at es (cv_find g es) = Some g"
  proof -
    assume "cv_find g es \<noteq> cv_end es"
    then have lt: "cv_find g es < length es"
      using length_takeWhile_le[of "\<lambda>e. fst e \<noteq> g" es] by (simp add: cv_find_def cv_end_def)
    then have "\<not> fst (es ! cv_find g es) \<noteq> g"
      unfolding cv_find_def by (rule nth_length_takeWhile)
    with lt show ?thesis by (simp add: index_at_def)
  qed
  have f_out: "outside_view es sv (cv_find g es) \<longleftrightarrow> cv_find g es = cv_end es"
    using found g_in by (cases "cv_find g es = cv_end es") (auto simp: outside_view_def)
  have 1: "outside_view es sv (cv_find g es) \<longrightarrow> find_sv h sv i = sv_end h sv"
    using f_out by (simp add: find_sv_def Let_def es_def g_def)
  have 2: "\<not> outside_view es sv (cv_find g es) \<longrightarrow>
            find_sv h sv i = \<lparr>it_pos = cv_find g es, it_offset = sv_start sv\<rparr>
            \<and> index_at es (cv_find g es) = Some g"
    using found f_out by (auto simp: find_sv_def Let_def es_def g_def)
  \<comment> \<open>lowerBound\<close>
  have 3: "lowerBound_sv h sv i = \<lparr>it_pos = cv_lowerBound g es, it_offset = sv_start sv\<rparr>"
    by (simp add: lowerBound_sv_def es_def g_def)
  have 4: "lowerBound_sv h sv i = sv_end h sv" if "outside_view es sv (cv_lowerBound g es)"
  proof -
    have "length (takeWhile (\<lambda>e. fst e < g) es) = cv_lowerBound (sv_start sv + sv_size sv) es"
      using assms(1) _ _ that[unfolded cv_lowerBound_def]
    proof (rule bound_clamped)
      fix e :: "size_t \<times> 'a"
      show "fst e < g \<Longrightarrow> fst e < sv_start sv + sv_size sv" using g_hi by simp
      show "\<not> fst e < g \<Longrightarrow> sv_start sv \<le> fst e" using g_lo by simp
    qed
    then show ?thesis
      by (simp add: lowerBound_sv_def sv_end_def es_def g_def cv_lowerBound_def)
  qed
  \<comment> \<open>upperBound\<close>
  have 5: "upperBound_sv h sv i = \<lparr>it_pos = cv_upperBound g es, it_offset = sv_start sv\<rparr>"
    by (simp add: upperBound_sv_def es_def g_def)
  have 6: "upperBound_sv h sv i = sv_end h sv" if "outside_view es sv (cv_upperBound g es)"
  proof -
    have "length (takeWhile (\<lambda>e. fst e \<le> g) es) = cv_lowerBound (sv_start sv + sv_size sv) es"
      using assms(1) _ _ that[unfolded cv_upperBound_def]
    proof (rule bound_clamped)
      fix e :: "size_t \<times> 'a"
      show "fst e \<le> g \<Longrightarrow> fst e < sv_start sv + sv_size sv" using g_hi by simp
      show "\<not> fst e \<le> g \<Longrightarrow> sv_start sv \<le> fst e" using g_lo by simp
    qed
    then show ?thesis
      by (simp add: upperBound_sv_def sv_end_def es_def g_def cv_upperBound_def cv_lowerBound_def)
  qed
  have "\<not> in_view sv (sv_start sv + sv_size sv)"
    by (simp add: in_view_def nw)
  then have 7: "index_at es (cv_upperBound g es) = Some (sv_start sv + sv_size sv) \<longrightarrow>
            upperBound_sv h sv i = sv_end h sv"
    using 6 by (simp add: outside_view_def)
  from 1 2 3 4 5 6 7 show ?thesis by blast
qed

theorem lookup_returns_local_end_witness:
  "sv_valid h2 sv0 \<and> unat (2::size_t) < unat (sv_size sv0)
   \<and> find_sv h2 sv0 2 = \<lparr>it_pos = 1, it_offset = 3\<rparr>
   \<and> index_at (cv_elems (h2 0)) (cv_upperBound (sv_start sv0 + 2) (cv_elems (h2 0))) = Some 7
   \<and> upperBound_sv h2 sv0 2 = sv_end h2 sv0"
proof -
  let ?es = "cv_elems (h2 (sv_vector sv0))"
  have b: "sv_valid h2 sv0" by (simp add: sv_valid_def h2_def sv0_def)
  have i: "unat (2::size_t) < unat (sv_size sv0)" by (simp add: sv0_def)
  have es: "?es = [(2, 5), (5, -1), (7, 3), (9, 4)]" by (simp add: h2_def)
  have o2: "\<not> outside_view ?es sv0 (cv_find (sv_start sv0 + 2) ?es)"
    unfolding es by (simp add: outside_view_def cv_find_def cv_end_def sv0_def index_at_def in_view_def)
  have o4: "outside_view ?es sv0 (cv_upperBound (sv_start sv0 + 2) ?es)"
    unfolding es by (simp add: outside_view_def cv_upperBound_def cv_end_def sv0_def index_at_def in_view_def)
  have f: "cv_find (sv_start sv0 + 2) ?es = 1"
    unfolding es by (simp add: cv_find_def sv0_def)
  have u: "index_at (cv_elems (h2 0)) (cv_upperBound (sv_start sv0 + 2) (cv_elems (h2 0))) = Some 7"
    by (simp add: cv_upperBound_def index_at_def sv0_def h2_def)
  from lookup_returns_local_end[OF b i] o2 o4
  have "find_sv h2 sv0 2 = \<lparr>it_pos = cv_find (sv_start sv0 + 2) ?es, it_offset = sv_start sv0\<rparr>
      \<and> upperBound_sv h2 sv0 2 = sv_end h2 sv0"
    by blast
  with f b i u show ?thesis by (simp add: sv0_def)
qed

section \<open>Assignment of vectors\<close>

lemma map_of_insert_at:
  "i \<notin> fst ` set es \<Longrightarrow> map_of (take k es @ (i, v) # drop k es) = (map_of es)(i \<mapsto> v)"
proof -
  assume a: "i \<notin> fst ` set es"
  then have "i \<notin> fst ` set (take k es)" by (auto dest: in_set_takeD)
  then have n: "map_of (take k es) i = None" by (simp add: map_of_eq_None_iff)
  have e: "map_of es = map_of (drop k es) ++ map_of (take k es)"
    by (metis append_take_drop_id map_of_append)
  have "map_of (take k es @ (i, v) # drop k es) = map_of ((i, v) # drop k es) ++ map_of (take k es)"
    by (simp only: map_of_append)
  also have "\<dots> = (map_of es)(i \<mapsto> v)"
    using n by (auto simp: fun_eq_iff map_add_def e split: option.splits)
  finally show ?thesis .
qed

lemma append_sv_insert:
  assumes "sv_start sv + i \<notin> fst ` set (cv_elems (h (sv_vector sv)))"
  shows "\<exists>h'. append_sv h sv i v False = Inr h'
          \<and> map_of (cv_elems (h' (sv_vector sv))) = (map_of (cv_elems (h (sv_vector sv))))(sv_start sv + i \<mapsto> v)
          \<and> cv_size (h' (sv_vector sv)) = cv_size (h (sv_vector sv))
          \<and> (\<forall>a. a \<noteq> sv_vector sv \<longrightarrow> h' a = h a)"
  using assms by (simp add: append_sv_def cv_insert_def map_of_insert_at del: map_of_append)

lemma append_sv_other:
  "append_sv h sv i v c = Inr h' \<Longrightarrow> a \<noteq> sv_vector sv \<Longrightarrow> h' a = h a"
  by (auto simp: append_sv_def split: if_splits sum.splits)

lemma assign_temp_inserts:
  "distinct (map fst xs) \<Longrightarrow>
   \<forall>e \<in> set xs. sv_start sv + fst e \<notin> fst ` set (cv_elems (h (sv_vector sv))) \<Longrightarrow>
   \<exists>h'. assign_temp h sv xs = Inr h'
      \<and> map_of (cv_elems (h' (sv_vector sv))) = overlay (sv_start sv) xs (map_of (cv_elems (h (sv_vector sv))))
      \<and> cv_size (h' (sv_vector sv)) = cv_size (h (sv_vector sv))
      \<and> (\<forall>a. a \<noteq> sv_vector sv \<longrightarrow> h' a = h a)"
proof (induction xs arbitrary: h)
  case Nil
  then show ?case by (simp add: overlay_def)
next
  case (Cons e xs)
  let ?s = "sv_start sv"
  let ?m = "map_of (cv_elems (h (sv_vector sv)))"
  from Cons.prems(2) have "?s + fst e \<notin> fst ` set (cv_elems (h (sv_vector sv)))" by simp
  from append_sv_insert[where sv = sv and i = "fst e" and h = h and v = "snd e", OF this] obtain h1 where
    h1: "append_sv h sv (fst e) (snd e) False = Inr h1"
    and m1: "map_of (cv_elems (h1 (sv_vector sv))) = ?m(?s + fst e \<mapsto> snd e)"
    and s1: "cv_size (h1 (sv_vector sv)) = cv_size (h (sv_vector sv))"
    and o1: "\<forall>a. a \<noteq> sv_vector sv \<longrightarrow> h1 a = h a"
    by blast
  have d: "distinct (map fst xs)" and ne: "\<forall>x \<in> set xs. fst x \<noteq> fst e"
    using Cons.prems(1) by (auto simp: image_iff)
  have dom1: "fst ` set (cv_elems (h1 (sv_vector sv))) = insert (?s + fst e) (fst ` set (cv_elems (h (sv_vector sv))))"
    using arg_cong[OF m1, of dom] by (simp add: dom_map_of_conv_image_fst)
  have "\<forall>x \<in> set xs. ?s + fst x \<notin> fst ` set (cv_elems (h1 (sv_vector sv)))"
    using Cons.prems(2) ne by (simp add: dom1)
  from Cons.IH[of h1, OF d this] obtain h' where
    r: "assign_temp h1 sv xs = Inr h'"
    and m0: "map_of (cv_elems (h' (sv_vector sv))) = overlay ?s xs (map_of (cv_elems (h1 (sv_vector sv))))"
    and s0: "cv_size (h' (sv_vector sv)) = cv_size (h1 (sv_vector sv))"
    and o0: "\<forall>a. a \<noteq> sv_vector sv \<longrightarrow> h' a = h1 a"
    by blast
  have m': "map_of (cv_elems (h' (sv_vector sv))) = overlay ?s xs (?m(?s + fst e \<mapsto> snd e))"
    using m0 by (simp only: m1)
  have s': "cv_size (h' (sv_vector sv)) = cv_size (h (sv_vector sv))"
    using s0 s1 by simp
  have o': "\<forall>a. a \<noteq> sv_vector sv \<longrightarrow> h' a = h a"
    using o0 o1 by simp
  have none: "map_of xs (fst e) = None"
    using ne by (force simp: map_of_eq_None_iff)
  have "overlay ?s xs (?m(?s + fst e \<mapsto> snd e)) = overlay ?s (e # xs) ?m"
  proof
    fix g
    show "overlay ?s xs (?m(?s + fst e \<mapsto> snd e)) g = overlay ?s (e # xs) ?m g"
    proof (cases "g - ?s = fst e")
      case True
      then have "g = ?s + fst e" by (simp add: diff_eq_eq add.commute)
      with True none show ?thesis by (simp add: overlay_def)
    next
      case False
      then have "g \<noteq> ?s + fst e" by (simp add: diff_eq_eq add.commute)
      with False show ?thesis by (cases e) (simp add: overlay_def split: option.splits)
    qed
  qed
  with h1 r m' s' o' show ?case by simp
qed

lemma append_sv_check_zero: "append_sv h sv i 0 True = Inr h"
  by (simp add: append_sv_def isDefault_def)

lemma append_sv_check_nonzero: "v \<noteq> 0 \<Longrightarrow> append_sv h sv i v True = append_sv h sv i v False"
  by (simp add: append_sv_def isDefault_def)

lemma word_succ:
  fixes i n :: size_t
  assumes "i < n"
  shows "unat (i + 1) = Suc (unat i)"
proof -
  have lt: "unat i < unat n" using assms by (simp add: word_less_nat_alt)
  have "unat n < 2 ^ LENGTH(64)" by (rule unsigned_less)
  with lt have "unat i + unat (1::size_t) < 2 ^ LENGTH(64)" by simp
  then have "unat (i + 1) = unat i + unat (1::size_t)" by (rule unat_add_lem [THEN iffD1])
  then show ?thesis by simp
qed

lemma dense_entries_step:
  "k < length xs \<Longrightarrow>
   dense_entries xs k = (if xs ! k \<noteq> 0 then [(of_nat k, xs ! k)] else []) @ dense_entries xs (Suc k)"
  by (simp add: dense_entries_def upt_conv_Cons)

lemma dense_entries_end: "length xs \<le> k \<Longrightarrow> dense_entries xs k = []"
  by (simp add: dense_entries_def)

lemma assign_dense_temp:
  "length xs = unat (sv_size sv) \<Longrightarrow> unat i \<le> length xs \<Longrightarrow>
   assign_dense h sv xs i = assign_temp h sv (dense_entries xs (unat i))"
proof (induction h sv xs i rule: assign_dense.induct)
  case (1 h sv rhs i)
  show ?case
  proof (cases "i < sv_size sv")
    case False
    then have "length rhs \<le> unat i" using "1.prems" by (simp add: word_less_nat_alt)
    then show ?thesis
      using False by (subst assign_dense.simps) (simp add: dense_entries_end size_sv_def)
  next
    case True
    then have lt: "unat i < length rhs" using "1.prems" by (simp add: word_less_nat_alt)
    have suc: "unat (i + 1) = Suc (unat i)" using True by (rule word_succ)
    have le: "unat (i + 1) \<le> length rhs" using lt suc by simp
    have t: "i < size_sv h sv" using True by (simp add: size_sv_def)
    have unf: "assign_dense h sv rhs i =
      (case append_sv h sv i (rhs ! unat i) True of Inl e \<Rightarrow> Inl e
       | Inr h' \<Rightarrow> assign_dense h' sv rhs (i + 1))"
      using t lt by (subst assign_dense.simps) simp
    have ih: "\<And>h'. append_sv h sv i (rhs ! unat i) True = Inr h' \<Longrightarrow>
      assign_dense h' sv rhs (i + 1) = assign_temp h' sv (dense_entries rhs (Suc (unat i)))"
      using "1.IH"[OF t lt _ "1.prems"(1) le] by (simp add: suc)
    show ?thesis
    proof (cases "rhs ! unat i = 0")
      case True
      then show ?thesis
        using ih[of h] lt by (simp add: unf dense_entries_step append_sv_check_zero)
    next
      case False
      then show ?thesis
        using ih lt
        by (simp add: unf dense_entries_step append_sv_check_nonzero split: sum.splits)
    qed
  qed
qed

lemma assign_compressed_temp:
  "a \<noteq> sv_vector sv \<Longrightarrow> pos \<le> length (cv_elems (h a)) \<Longrightarrow>
   assign_compressed h sv a pos = assign_temp h sv (drop pos (cv_elems (h a)))"
proof (induction h sv a pos rule: assign_compressed.induct)
  case (1 h sv a pos)
  let ?es = "cv_elems (h a)"
  show ?case
  proof (cases "pos = length ?es")
    case True
    then show ?thesis by (subst assign_compressed.simps) (simp add: cv_end_def)
  next
    case False
    with "1.prems" have lt: "pos < length ?es" by simp
    have ne: "pos \<noteq> cv_end ?es" using False by (simp add: cv_end_def)
    have unf: "assign_compressed h sv a pos =
      (case append_sv h sv (fst (?es ! pos)) (snd (?es ! pos)) False of Inl e \<Rightarrow> Inl e
       | Inr h' \<Rightarrow> assign_compressed h' sv a (pos + 1))"
      using ne lt "1.prems"(1) by (subst assign_compressed.simps) (simp add: Let_def split: sum.splits)
    have ih: "assign_compressed h' sv a (pos + 1) = assign_temp h' sv (drop (Suc pos) ?es)"
      if "append_sv h sv (fst (?es ! pos)) (snd (?es ! pos)) False = Inr h'" for h'
    proof -
      have same: "h' a = h a" using that "1.prems"(1) by (rule append_sv_other)
      show ?thesis
        using "1.IH"[OF refl ne lt that "1.prems"(1) "1.prems"(1)] lt by (simp add: same)
    qed
    have "drop pos ?es = ?es ! pos # drop (Suc pos) ?es"
      using lt by (simp add: Cons_nth_drop_Suc)
    then show ?thesis
      using ih by (simp add: unf split: sum.splits)
  qed
qed

lemma sv_end_other: "h' (sv_vector w) = h (sv_vector w) \<Longrightarrow> sv_end h' w = sv_end h w"
  by (simp add: sv_end_def)

lemma assign_subvector_temp:
  "sv_vector w \<noteq> sv_vector sv \<Longrightarrow> it_pos it \<le> it_pos (sv_end h w) \<Longrightarrow>
   assign_subvector h sv w it =
     assign_temp h sv (map (\<lambda>e. (fst e - it_offset it, snd e))
        (drop (it_pos it) (take (it_pos (sv_end h w)) (cv_elems (h (sv_vector w))))))"
proof (induction h sv w it rule: assign_subvector.induct)
  case (1 h sv w it)
  let ?es = "cv_elems (h (sv_vector w))"
  let ?q = "it_pos (sv_end h w)"
  have q: "?q \<le> length ?es" by (simp add: sv_end_def lb_le_length)
  show ?case
  proof (cases "it_pos it = ?q")
    case True
    then show ?thesis by (subst assign_subvector.simps) (simp add: it_eq_def)
  next
    case False
    with "1.prems" q have lt: "it_pos it < ?q" "it_pos it < length ?es" by auto
    have ne: "\<not> it_eq it (sv_end h w)" using False by (simp add: it_eq_def)
    have unf: "assign_subvector h sv w it =
      (case append_sv h sv (elem_index ?es it) (elem_value ?es it) False of Inl e \<Rightarrow> Inl e
       | Inr h' \<Rightarrow> assign_subvector h' sv w (it_incr it))"
      using ne lt "1.prems"(1) by (subst assign_subvector.simps) (simp add: Let_def split: sum.splits)
    have ih: "assign_subvector h' sv w (it_incr it) =
        assign_temp h' sv (map (\<lambda>e. (fst e - it_offset it, snd e)) (drop (Suc (it_pos it)) (take ?q ?es)))"
      if "append_sv h sv (elem_index ?es it) (elem_value ?es it) False = Inr h'" for h'
    proof -
      have same: "h' (sv_vector w) = h (sv_vector w)" using that "1.prems"(1) by (rule append_sv_other)
      have e: "sv_end h' w = sv_end h w" using same by (rule sv_end_other)
      have "it_pos (it_incr it) \<le> it_pos (sv_end h' w)" using lt e by (simp add: it_incr_def)
      from "1.IH"[OF refl ne lt(2) that "1.prems"(1) "1.prems"(1) this]
      show ?thesis by (simp add: same e it_incr_def)
    qed
    have "drop (it_pos it) (take ?q ?es) = ?es ! it_pos it # drop (Suc (it_pos it)) (take ?q ?es)"
      using lt q by (simp add: Cons_nth_drop_Suc [symmetric])
    then show ?thesis
      using ih by (simp add: unf elem_index_def elem_value_def split: sum.splits)
  qed
qed

lemma view_entries_window:
  assumes "cv_wf (h (sv_vector w))" and "sv_valid h w"
  shows "map (\<lambda>e. (fst e - sv_start w, snd e))
          (drop (it_pos (sv_begin h w)) (take (it_pos (sv_end h w)) (cv_elems (h (sv_vector w)))))
         = view_entries h w"
proof -
  let ?es = "cv_elems (h (sv_vector w))"
  let ?a = "sv_start w" and ?b = "sv_start w + sv_size w"
  have srt: "sorted_wrt (<) (map fst ?es)" using assms(1) by (simp add: cv_wf_def)
  have ab: "?a \<le> ?b" using assms(2) by (rule valid_start_le)
  have flt: "filter (\<lambda>(g, v). in_view w g) ?es = filter (\<lambda>e. ?a \<le> fst e \<and> fst e < ?b) ?es"
    by (rule filter_cong) (auto simp: in_view_word[OF assms(2)])
  show ?thesis
    using window_filter[OF srt ab] flt
    by (simp add: sv_begin_def sv_end_def view_entries_def case_prod_unfold)
qed

lemma assign_subvector_view:
  assumes "sv_vector w \<noteq> sv_vector sv" and "cv_wf (h (sv_vector w))" and "sv_valid h w"
  shows "assign_subvector h sv w (sv_begin h w) = assign_temp h sv (view_entries h w)"
proof -
  have le: "it_pos (sv_begin h w) \<le> it_pos (sv_end h w)"
    using valid_start_le[OF assms(3)] by (simp add: sv_begin_def sv_end_def lb_mono)
  have "it_offset (sv_begin h w) = sv_start w" by (simp add: sv_begin_def)
  then show ?thesis
    using assign_subvector_temp[OF assms(1) le] view_entries_window[OF assms(2,3)] by simp
qed

lemma in_view_local:
  assumes "sv_valid h sv" and "unat i < unat (sv_size sv)"
  shows "in_view sv (sv_start sv + i)"
proof -
  have "unat (cv_size (h (sv_vector sv))) < 2 ^ LENGTH(64)"
    by (rule unsigned_less)
  then have "unat (sv_start sv) + unat i < 2 ^ LENGTH(64)"
    using assms by (simp add: sv_valid_def)
  then have "unat (sv_start sv + i) = unat (sv_start sv) + unat i"
    by (rule unat_add_lem [THEN iffD1])
  then show ?thesis using assms(2) by (simp add: in_view_def)
qed

lemma map_of_shift:
  fixes s :: size_t
  shows "map_of (map (\<lambda>(g, v). (g - s, v)) xs) i = map_of xs (s + i)"
  by (induction xs) (auto simp: diff_eq_eq add.commute)

lemma map_of_filter_key:
  "map_of (filter (\<lambda>(g, v). P g) xs) g = (if P g then map_of xs g else None)"
  by (induction xs) auto

lemma unat_of_nat_small: "k < 2 ^ 64 \<Longrightarrow> unat (of_nat k :: size_t) = k"
  by (simp add: unat_of_nat)

lemma map_of_dense:
  "\<forall>j \<in> set js. j < 2 ^ 64 \<Longrightarrow>
   map_of (map (\<lambda>j. (of_nat j :: size_t, f j)) js) i = (if unat i \<in> set js then Some (f (unat i)) else None)"
proof (induction js)
  case Nil
  then show ?case by simp
next
  case (Cons j js)
  then have "unat (of_nat j :: size_t) = j" by (simp add: unat_of_nat_small)
  then have "(of_nat j :: size_t) = i \<longleftrightarrow> j = unat i" by auto
  with Cons show ?case by auto
qed

lemma entries_distinct: "vec_wf h x \<Longrightarrow> distinct (map fst (entries_of h x))"
proof (cases x)
  case (Dense xs)
  assume "vec_wf h x"
  with Dense have len: "length xs < 2 ^ 64" by simp
  have "inj_on (of_nat :: nat \<Rightarrow> size_t) (set (filter (\<lambda>j. xs ! j \<noteq> 0) [0..<length xs]))"
  proof (rule inj_onI)
    fix a b
    assume a: "a \<in> set (filter (\<lambda>j. xs ! j \<noteq> 0) [0..<length xs])"
      and b: "b \<in> set (filter (\<lambda>j. xs ! j \<noteq> 0) [0..<length xs])"
      and e: "(of_nat a :: size_t) = of_nat b"
    from a have "a < length xs" by simp
    then have a64: "a < 2 ^ 64" using len by (rule less_trans)
    from b have "b < length xs" by simp
    then have b64: "b < 2 ^ 64" using len by (rule less_trans)
    have ua: "unat (of_nat a :: size_t) = a" using a64 by (rule unat_of_nat_small)
    have ub: "unat (of_nat b :: size_t) = b" using b64 by (rule unat_of_nat_small)
    from e have "unat (of_nat a :: size_t) = unat (of_nat b :: size_t)" by (rule arg_cong)
    then show "a = b" by (simp only: ua ub)
  qed
  then show ?thesis
    using Dense by (simp add: dense_entries_def comp_def distinct_map)
next
  case (Temp c)
  assume "vec_wf h x"
  with Temp show ?thesis by (simp add: cv_wf_def strict_sorted_iff)
next
  case (Compressed a)
  assume "vec_wf h x"
  with Compressed show ?thesis by (simp add: cv_wf_def strict_sorted_iff)
next
  case (Subvector w)
  assume "vec_wf h x"
  with Subvector have "distinct (map fst (cv_elems (h (sv_vector w))))"
    by (simp add: cv_wf_def strict_sorted_iff)
  then have "distinct (map fst (filter (\<lambda>(g, v). in_view w g) (cv_elems (h (sv_vector w)))))"
    by (simp add: distinct_map_filter)
  moreover have "map fst (view_entries h w) =
      map (\<lambda>g. g - sv_start w) (map fst (filter (\<lambda>(g, v). in_view w g) (cv_elems (h (sv_vector w)))))"
    by (simp add: view_entries_def comp_def case_prod_unfold)
  ultimately show ?thesis
    using Subvector by (simp add: distinct_map inj_on_def del: map_map)
qed

lemma entries_bound:
  "vec_wf h x \<Longrightarrow> e \<in> set (entries_of h x) \<Longrightarrow> unat (fst e) < unat (vec_size h x)"
proof (cases x)
  case (Dense xs)
  assume "vec_wf h x" and "e \<in> set (entries_of h x)"
  with Dense show ?thesis
    by (auto simp: dense_entries_def unat_of_nat_small)
next
  case (Temp c)
  assume "vec_wf h x" and "e \<in> set (entries_of h x)"
  with Temp show ?thesis by (auto simp: cv_wf_def word_less_nat_alt)
next
  case (Compressed a)
  assume "vec_wf h x" and "e \<in> set (entries_of h x)"
  with Compressed show ?thesis by (auto simp: cv_wf_def word_less_nat_alt)
next
  case (Subvector w)
  assume "vec_wf h x" and "e \<in> set (entries_of h x)"
  with Subvector show ?thesis
    by (auto simp: view_entries_def in_view_def size_sv_def unat_sub word_le_nat_alt)
qed

lemma entries_lookup:
  assumes "vec_wf h x" and "unat i < unat (vec_size h x)"
  shows "(case map_of (entries_of h x) i of Some v \<Rightarrow> v | None \<Rightarrow> 0) = vec_at h x i"
proof (cases x)
  case (Dense xs)
  with assms have len: "length xs < 2 ^ 64" and i: "unat i < length xs"
    by (simp_all add: unat_of_nat_small)
  have "\<forall>j \<in> set (filter (\<lambda>j. xs ! j \<noteq> 0) [0..<length xs]). j < 2 ^ 64"
    using len by auto
  from map_of_dense[OF this, of "\<lambda>j. xs ! j" i] i Dense show ?thesis
    by (simp add: dense_entries_def)
next
  case (Temp c)
  then show ?thesis by (simp add: cv_at_def)
next
  case (Compressed a)
  then show ?thesis by (simp add: cv_at_def)
next
  case (Subvector w)
  with assms have v: "sv_valid h w" and i: "unat i < unat (sv_size w)"
    by (simp_all add: size_sv_def)
  have "in_view w (sv_start w + i)" using v i by (rule in_view_local)
  then show ?thesis
    using Subvector
    by (simp add: view_entries_def map_of_shift map_of_filter_key subscript_def cv_at_def)
qed

lemma reset_view_entries:
  "sv_vector w \<noteq> sv_vector sv \<Longrightarrow> view_entries (reset h sv) w = view_entries h w"
  by (simp add: view_entries_def reset_other)

lemma assign_reset_entries:
  assumes "sv_valid h sv" and "vec_wf h x" and "vec_size h x = size_sv h sv"
    and "\<not> canAlias x (sv_vector sv)"
  shows "assign (reset h sv) sv x = assign_temp (reset h sv) sv (entries_of h x)"
proof (cases x)
  case (Dense xs)
  with assms have len: "length xs < 2 ^ 64" and "of_nat (length xs) = sv_size sv"
    by (simp_all add: size_sv_def)
  then have "length xs = unat (sv_size sv)"
    using unat_of_nat_small[OF len] by simp
  from assign_dense_temp[OF this, of 0] Dense show ?thesis by simp
next
  case (Temp c)
  then show ?thesis by simp
next
  case (Compressed a)
  with assms(4) have ne: "a \<noteq> sv_vector sv" by simp
  then have "reset h sv a = h a" by (rule reset_other)
  with assign_compressed_temp[OF ne, of 0 "reset h sv"] Compressed show ?thesis by simp
next
  case (Subvector w)
  with assms(4) have ne: "sv_vector w \<noteq> sv_vector sv" by (simp add: canAlias_sv_def)
  then have same: "reset h sv (sv_vector w) = h (sv_vector w)" by (rule reset_other)
  from Subvector assms(2) have "cv_wf (reset h sv (sv_vector w))" "sv_valid (reset h sv) w"
    by (simp_all add: same sv_valid_def)
  from assign_subvector_view[OF ne this] Subvector show ?thesis
    by (simp add: reset_view_entries[OF ne])
qed

lemma materialize_entries:
  assumes "vec_wf h x"
  shows "\<exists>tmp. materialize h x = Inr tmp \<and> \<not> canAlias tmp alias \<and> vec_size h' tmp = vec_size h x
           \<and> entries_of h' tmp = entries_of h x"
proof (cases x)
  case (Dense xs)
  then show ?thesis by simp
next
  case (Temp c)
  then show ?thesis by simp
next
  case (Compressed a)
  then show ?thesis by simp
next
  case (Subvector w)
  with assms have "traverse h w (sv_begin h w) = Inr (view_entries h w)"
    by (simp add: traverse_view_entries)
  then show ?thesis using Subvector by (simp add: size_sv_def)
qed

lemma assign_temp_read:
  assumes wf: "cv_wf (h (sv_vector sv))" and v: "sv_valid h sv"
    and d: "distinct (map fst xs)"
    and b: "\<forall>e \<in> set xs. unat (fst e) < unat (sv_size sv)"
  shows "\<exists>h'. assign_temp (reset h sv) sv xs = Inr h'
      \<and> (\<forall>i. unat i < unat (sv_size sv) \<longrightarrow>
            subscript h' sv i = (case map_of xs i of Some v \<Rightarrow> v | None \<Rightarrow> 0))"
proof -
  let ?hr = "reset h sv"
  let ?s = "sv_start sv"
  have er: "cv_elems (?hr (sv_vector sv)) = filter (\<lambda>(g, v). \<not> in_view sv g) (cv_elems (h (sv_vector sv)))"
    using wf v by (rule reset_elems)
  have free: "map_of (cv_elems (?hr (sv_vector sv))) (?s + i) = None" if "unat i < unat (sv_size sv)" for i
    using in_view_local[OF v that] by (simp add: er map_of_filter_key)
  have "\<forall>e \<in> set xs. ?s + fst e \<notin> fst ` set (cv_elems (?hr (sv_vector sv)))"
  proof
    fix e assume "e \<in> set xs"
    with b have "unat (fst e) < unat (sv_size sv)" by simp
    then have "map_of (cv_elems (?hr (sv_vector sv))) (?s + fst e) = None" by (rule free)
    then show "?s + fst e \<notin> fst ` set (cv_elems (?hr (sv_vector sv)))"
      by (simp add: map_of_eq_None_iff)
  qed
  from assign_temp_inserts[where h = "reset h sv" and sv = sv and xs = xs, OF d this] obtain h' where
    r: "assign_temp ?hr sv xs = Inr h'"
    and m: "map_of (cv_elems (h' (sv_vector sv))) = overlay ?s xs (map_of (cv_elems (?hr (sv_vector sv))))"
    by blast
  have "subscript h' sv i = (case map_of xs i of Some v \<Rightarrow> v | None \<Rightarrow> 0)"
    if "unat i < unat (sv_size sv)" for i
    using free[OF that] by (simp add: subscript_def cv_at_def m overlay_def split: option.splits)
  with r show ?thesis by blast
qed

lemma assign_op_entries:
  assumes "sv_valid h sv" and "vec_wf h x" and "vec_size h x = size_sv h sv"
  shows "assign_op h sv x = assign_temp (reset h sv) sv (entries_of h x)"
proof (cases "canAlias x (sv_vector sv)")
  case False
  with assms show ?thesis by (simp add: assign_op_def assign_reset_entries)
next
  case True
  from materialize_entries[OF assms(2), of "sv_vector sv" "reset h sv"] obtain tmp where
    t: "materialize h x = Inr tmp" "\<not> canAlias tmp (sv_vector sv)"
       "entries_of (reset h sv) tmp = entries_of h x"
    by blast
  have "assign (reset h sv) sv tmp = assign_temp (reset h sv) sv (entries_of (reset h sv) tmp)"
  proof (cases x)
    case (Dense xs)
    with True show ?thesis by simp
  next
    case (Temp c)
    with True show ?thesis by simp
  next
    case (Compressed a)
    with t(1) show ?thesis by auto
  next
    case (Subvector w)
    with t(1) show ?thesis by (auto split: sum.splits)
  qed
  with True t assms(3) show ?thesis by (simp add: assign_op_def)
qed

lemma copy_assign_op_entries:
  assumes "sv_valid h sv" and "vec_wf h (Subvector w)" and "size_sv h w = size_sv h sv"
    and "\<not> (sv_vector sv = sv_vector w \<and> sv_start sv = sv_start w)"
  shows "copy_assign_op h sv w = assign_op h sv (Subvector w)"
  using assms(3,4) unfolding copy_assign_op_def assign_op_def
  by (cases "sv_vector sv = sv_vector w") auto

text \<open>
  C2: assigning a dense or sparse vector \<open>x\<close> of the size of the view into the view
  (\<open>operator=\<close>) succeeds, and reading the view elementwise afterwards yields the values
  that \<open>x\<close> had; where \<open>x\<close> can alias the backing container of the view, the
  assignment materializes \<open>x\<close> into a temporary before it resets the view, and the result
  is that of assigning the temporary.
\<close>

theorem assignment_round_trip:
  assumes "cv_wf (h (sv_vector sv))" and "sv_valid h sv"
    and "vec_wf h x" and "vec_size h x = size_sv h sv"
  shows "(\<exists>h'. assign_op h sv x = Inr h'
            \<and> (\<forall>i. i < size_sv h sv \<longrightarrow> subscript h' sv i = vec_at h x i))
       \<and> (\<forall>w. x = Subvector w \<longrightarrow>
            (\<exists>h'. copy_assign_op h sv w = Inr h'
               \<and> (\<forall>i. i < size_sv h sv \<longrightarrow> subscript h' sv i = vec_at h x i)))
       \<and> (canAlias x (sv_vector sv) \<longrightarrow>
            (\<exists>tmp. materialize h x = Inr tmp \<and> \<not> canAlias tmp (sv_vector sv)
               \<and> assign_op h sv x = assign (reset h sv) sv tmp
               \<and> assign_op h sv x = assign_op h sv tmp))"
proof -
  let ?xs = "entries_of h x"
  have d: "distinct (map fst ?xs)" using assms(3) by (rule entries_distinct)
  have b: "\<forall>e \<in> set ?xs. unat (fst e) < unat (sv_size sv)"
    using entries_bound[OF assms(3)] assms(4) by (simp add: size_sv_def)
  from assign_temp_read[OF assms(1,2) d b] obtain h' where
    r: "assign_temp (reset h sv) sv ?xs = Inr h'"
    and rd: "\<forall>i. unat i < unat (sv_size sv) \<longrightarrow>
            subscript h' sv i = (case map_of ?xs i of Some v \<Rightarrow> v | None \<Rightarrow> 0)"
    by blast
  have val: "subscript h' sv i = vec_at h x i" if "i < size_sv h sv" for i
  proof -
    from that have i: "unat i < unat (sv_size sv)" by (simp add: size_sv_def word_less_nat_alt)
    then have "unat i < unat (vec_size h x)" using assms(4) by (simp add: size_sv_def)
    from entries_lookup[OF assms(3) this] rd i show ?thesis by simp
  qed
  have op: "assign_op h sv x = Inr h'"
    using assign_op_entries[OF assms(2,3,4)] r by simp
  have 1: "\<exists>h'. assign_op h sv x = Inr h' \<and> (\<forall>i. i < size_sv h sv \<longrightarrow> subscript h' sv i = vec_at h x i)"
    using op val by blast
  have 2: "\<exists>h'. copy_assign_op h sv w = Inr h' \<and> (\<forall>i. i < size_sv h sv \<longrightarrow> subscript h' sv i = vec_at h x i)"
    if x: "x = Subvector w" for w
  proof (cases "sv_vector sv = sv_vector w \<and> sv_start sv = sv_start w")
    case True
    then have "copy_assign_op h sv w = Inr h" by (simp add: copy_assign_op_def)
    moreover have "subscript h sv i = vec_at h x i" for i
      using True x by (simp add: subscript_def)
    ultimately show ?thesis by blast
  next
    case False
    from copy_assign_op_entries[OF assms(2) assms(3)[unfolded x] _ False] assms(4) x
    have "copy_assign_op h sv w = assign_op h sv x" by simp
    with 1 show ?thesis by simp
  qed
  have 3: "\<exists>tmp. materialize h x = Inr tmp \<and> \<not> canAlias tmp (sv_vector sv)
               \<and> assign_op h sv x = assign (reset h sv) sv tmp
               \<and> assign_op h sv x = assign_op h sv tmp"
    if al: "canAlias x (sv_vector sv)"
  proof -
    from materialize_entries[OF assms(3), of "sv_vector sv" h] obtain tmp where
      t: "materialize h x = Inr tmp" "\<not> canAlias tmp (sv_vector sv)" "vec_size h tmp = vec_size h x"
      by blast
    have a: "assign_op h sv x = assign (reset h sv) sv tmp"
      using al t(1) assms(4) by (simp add: assign_op_def)
    have "assign_op h sv tmp = assign (reset h sv) sv tmp"
      using t(2,3) assms(4) by (simp add: assign_op_def)
    with a t show ?thesis by auto
  qed
  from 1 2 3 show ?thesis by blast
qed

theorem assignment_round_trip_witness:
  "cv_wf (hh (sv_vector sv0)) \<and> sv_valid hh sv0 \<and> vec_wf hh (Subvector sv_shifted)
   \<and> vec_size hh (Subvector sv_shifted) = size_sv hh sv0 \<and> canAlias (Subvector sv_shifted :: int rhs_vector) (sv_vector sv0)
   \<and> (\<exists>h'. assign_op hh sv0 (Subvector sv_shifted) = Inr h'
         \<and> subscript h' sv0 0 = 0 \<and> subscript h' sv0 1 = -1 \<and> subscript h' sv0 2 = 0 \<and> subscript h' sv0 3 = 3)"
proof -
  have a: "cv_wf (hh (sv_vector sv0))" by (simp add: cv_wf_def hh_def sv0_def)
  have b: "sv_valid hh sv0" by (simp add: sv_valid_def hh_def sv0_def)
  have c: "vec_wf hh (Subvector sv_shifted)"
    by (simp add: sv_valid_def cv_wf_def hh_def sv_shifted_def)
  have d: "vec_size hh (Subvector sv_shifted) = size_sv hh sv0"
    by (simp add: size_sv_def sv_shifted_def sv0_def)
  have e: "canAlias (Subvector sv_shifted :: int rhs_vector) (sv_vector sv0)"
    by (simp add: canAlias_sv_def sv_shifted_def sv0_def)
  have v: "vec_at hh (Subvector sv_shifted) 0 = 0" "vec_at hh (Subvector sv_shifted) 1 = -1"
      "vec_at hh (Subvector sv_shifted) 2 = 0" "vec_at hh (Subvector sv_shifted) 3 = 3"
    by (simp_all add: subscript_def cv_at_def hh_def sv_shifted_def)
  have i: "(0::size_t) < size_sv hh sv0" "(1::size_t) < size_sv hh sv0"
      "(2::size_t) < size_sv hh sv0" "(3::size_t) < size_sv hh sv0"
    by (simp_all add: size_sv_def sv0_def)
  from assignment_round_trip[OF a b c d] obtain h' where
    "assign_op hh sv0 (Subvector sv_shifted) = Inr h'"
    "\<forall>i. i < size_sv hh sv0 \<longrightarrow> subscript h' sv0 i = vec_at hh (Subvector sv_shifted) i"
    by blast
  with v i have "assign_op hh sv0 (Subvector sv_shifted) = Inr h'
         \<and> subscript h' sv0 0 = 0 \<and> subscript h' sv0 1 = -1 \<and> subscript h' sv0 2 = 0 \<and> subscript h' sv0 3 = 3"
    by metis
  with a b c d e show ?thesis by blast
qed


section \<open>Operands of different sizes\<close>


text \<open>
  C4: an assignment between operands of different sizes fails with an invalid-argument error
  before anything is written. The copy assignment operator returns at line 907-908, before
  the test of the sizes, when both views have the same vector and the same first index:
  for the views of the indices 2..4 and 2..6 of one vector it raises nothing.
\<close>

theorem copy_assign_skips_size_check:
  "sv_valid h0 sv_short \<and> sv_valid h0 sv_long \<and> size_sv h0 sv_short \<noteq> size_sv h0 sv_long
   \<and> copy_assign_op h0 sv_short sv_long = Inr h0"
  by (simp add: copy_assign_op_def sv_valid_def size_sv_def sv_short_def sv_long_def h0_def)

text \<open>
  Every other path tests the sizes first: the error is raised and the store is the one
  before the call.
\<close>

lemma size_mismatch_raises:
  assumes "vec_size h x \<noteq> size_sv h sv"
  shows "assign_op h sv x = Inl (InvalidArgument, h)"
    and "add_assign_op plus_expr h sv x = Inl (InvalidArgument, h)"
    and "sub_assign_op minus_expr h sv x = Inl (InvalidArgument, h)"
    and "mult_assign_op mult_expr h sv x = Inl (InvalidArgument, h)"
    and "x = Subvector w \<Longrightarrow> \<not> (sv_vector sv = sv_vector w \<and> sv_start sv = sv_start w) \<Longrightarrow>
         copy_assign_op h sv w = Inl (InvalidArgument, h)"
  using assms
  by (auto simp: assign_op_def add_assign_op_def sub_assign_op_def mult_assign_op_def copy_assign_op_def)

section \<open>Subvectors of expressions\<close>

lemma range_check:
  fixes s n m :: size_t
  assumes "unat s + unat n \<le> unat m"
  shows "\<not> m < s + n"
proof -
  have "unat m < 2 ^ LENGTH(64)" by (rule unsigned_less)
  with assms have "unat s + unat n < 2 ^ LENGTH(64)" by simp
  then have "unat (s + n) = unat s + unat n" by (rule unat_add_lem [THEN iffD1])
  with assms show ?thesis by (simp add: word_less_nat_alt)
qed

lemma sub_pushed:
  "n \<noteq> 0 \<Longrightarrow> unat s + unat n \<le> unat (expr_size e) \<Longrightarrow> expr_wf e \<Longrightarrow>
   sub e s n = Inr (pushed e s n)"
  by (induction e) (simp_all add: range_check both_def)

lemma pushed_at: "expr_at (pushed e s n) i = expr_at e (s + i)"
  by (induction e) simp_all

lemma evaluate_at:
  assumes "unat i < unat (expr_size e)"
  shows "cv_at (evaluate e) i = expr_at e i"
proof -
  let ?js = "filter (\<lambda>j. expr_at e (of_nat j) \<noteq> 0) [0..<unat (expr_size e)]"
  have "unat (expr_size e) < 2 ^ LENGTH(64)" by (rule unsigned_less)
  then have "\<forall>j \<in> set ?js. j < 2 ^ 64" by auto
  from map_of_dense[OF this, of "\<lambda>j. expr_at e (of_nat j)" i] assms show ?thesis
    by (simp add: evaluate_def cv_at_def)
qed

text \<open>
  C3: for concrete vectors of equal size and a valid range, the subvector of an unevaluated
  sum is rewritten to the sum of the subvectors, and the rewritten expression has
  elementwise the values of the subvector of the eagerly evaluated sum; the same holds for
  subtraction, elementwise multiplication, scalar multiplication and division, absolute
  value, evaluation and transposition, and for expressions nested from them.
\<close>

theorem subvector_pushdown:
  assumes "expr_wf e" and "n \<noteq> 0" and "unat s + unat n \<le> unat (expr_size e)"
  shows "sub e s n = Inr (pushed e s n)
       \<and> sub (Vec (evaluate e)) s n = Inr (View (Vec (evaluate e)) s n)
       \<and> (\<forall>i. i < n \<longrightarrow> expr_at (pushed e s n) i = expr_at (View (Vec (evaluate e)) s n) i)"
proof -
  have 1: "sub e s n = Inr (pushed e s n)" using assms(2,3,1) by (rule sub_pushed)
  have 2: "sub (Vec (evaluate e)) s n = Inr (View (Vec (evaluate e)) s n)"
    using assms(2) range_check[OF assms(3)] by (simp add: evaluate_def)
  have 3: "expr_at (pushed e s n) i = expr_at (View (Vec (evaluate e)) s n) i" if "i < n" for i
  proof -
    have "unat (expr_size e) < 2 ^ LENGTH(64)" by (rule unsigned_less)
    with assms(3) that have "unat s + unat i < 2 ^ LENGTH(64)" by (simp add: word_less_nat_alt)
    then have "unat (s + i) = unat s + unat i" by (rule unat_add_lem [THEN iffD1])
    with assms(3) that have "unat (s + i) < unat (expr_size e)" by (simp add: word_less_nat_alt)
    then show ?thesis by (simp add: pushed_at evaluate_at)
  qed
  from 1 2 3 show ?thesis by blast
qed

theorem subvector_pushdown_witness:
  "expr_wf (AddExpr (Vec vA) (Vec vB)) \<and> (4::size_t) \<noteq> 0
   \<and> unat (3::size_t) + unat (4::size_t) \<le> unat (expr_size (AddExpr (Vec vA) (Vec vB)))
   \<and> sub (AddExpr (Vec vA) (Vec vB)) 3 4 = Inr (AddExpr (View (Vec vA) 3 4) (View (Vec vB) 3 4))
   \<and> expr_at (View (Vec (evaluate (AddExpr (Vec vA) (Vec vB)))) 3 4) 1 = 2
   \<and> expr_at (View (Vec (evaluate (AddExpr (Vec vA) (Vec vB)))) 3 4) 2 = 0
   \<and> expr_at (View (Vec (evaluate (AddExpr (Vec vA) (Vec vB)))) 3 4) 3 = -6"
proof -
  let ?e = "AddExpr (Vec vA) (Vec vB)"
  have a: "expr_wf ?e" by (simp add: vA_def vB_def)
  have b: "(4::size_t) \<noteq> 0" by simp
  have c: "unat (3::size_t) + unat (4::size_t) \<le> unat (expr_size ?e)" by (simp add: vA_def)
  have p: "pushed ?e 3 4 = AddExpr (View (Vec vA) 3 4) (View (Vec vB) 3 4)" by simp
  have v: "expr_at (pushed ?e 3 4) 1 = 2" "expr_at (pushed ?e 3 4) 2 = 0" "expr_at (pushed ?e 3 4) 3 = -6"
    by (simp_all add: cv_at_def vA_def vB_def)
  have i: "(1::size_t) < 4" "(2::size_t) < 4" "(3::size_t) < 4" by simp_all
  from subvector_pushdown[OF a b c] have
    s: "sub ?e 3 4 = Inr (pushed ?e 3 4)"
    and r: "\<forall>i. i < 4 \<longrightarrow> expr_at (pushed ?e 3 4) i = expr_at (View (Vec (evaluate ?e)) 3 4) i"
    by blast+
  from r i v have "expr_at (View (Vec (evaluate ?e)) 3 4) 1 = 2"
    "expr_at (View (Vec (evaluate ?e)) 3 4) 2 = 0" "expr_at (View (Vec (evaluate ?e)) 3 4) 3 = -6"
    by metis+
  with a b c s p show ?thesis by simp
qed

end
